theory Spec2Isabelle
  imports Main
begin

section \<open>JavaScript values and objects\<close>

text \<open>
  The values that occur in the branch parser and in the repository service: a field read
  past the end of an array is \<open>undefined\<close>, the fields of a record are strings, and
  \<open>ahead\<close>/\<open>behind\<close> are numbers. The counters are integers; the floating-point part of
  JavaScript numbers plays no role in the code under study.
\<close>

datatype jsval = Undefined | Str string | Num int

text \<open>Truthiness, as \<open>if (x)\<close> and \<open>filter(e => e.upstream)\<close> test it.\<close>

fun truthy :: "jsval \<Rightarrow> bool" where
  "truthy Undefined = False"
| "truthy (Str s) = (s \<noteq> [])"
| "truthy (Num n) = (n \<noteq> 0)"

text \<open>
  A \<open>Branch\<close> is a plain object: a finite map from property names to values. Reading a
  property that was never assigned gives \<open>undefined\<close>.
\<close>

type_synonym Branch = "string \<rightharpoonup> jsval"

definition get_prop :: "Branch \<Rightarrow> string \<Rightarrow> jsval" where
  "get_prop b k = (case b k of None \<Rightarrow> Undefined | Some v \<Rightarrow> v)"

text \<open>The only exception the code raises itself is \<open>new Error(message)\<close>.\<close>

datatype error = Error string

section \<open>String.prototype.split\<close>

text \<open>
  \<open>s.split(sep)\<close> for a non-empty separator scans \<open>s\<close> from the left, cuts at every
  occurrence of \<open>sep\<close> and resumes after it; the piece collected so far is \<open>acc\<close>
  (reversed). The empty string splits into one empty piece.
\<close>

function split_on :: "string \<Rightarrow> string \<Rightarrow> string \<Rightarrow> string list" where
  "split_on sep acc [] = [rev acc]"
| "split_on sep acc (c # cs) =
     (if sep \<noteq> [] \<and> take (length sep) (c # cs) = sep
      then rev acc # split_on sep [] (drop (length sep) (c # cs))
      else split_on sep (c # acc) cs)"
  by pat_completeness auto
termination
  by (relation "measure (\<lambda>(sep, acc, s). length s)") auto

text \<open>With the empty separator, \<open>split\<close> returns the characters one by one.\<close>

definition split_js :: "string \<Rightarrow> string \<Rightarrow> string list" where
  "split_js sep s = (if sep = [] then map (\<lambda>c. [c]) s else split_on sep [] s)"

text \<open>\<open>data[ix]\<close>: an array read, \<open>undefined\<close> past the end.\<close>

definition nth_js :: "string list \<Rightarrow> nat \<Rightarrow> jsval" where
  "nth_js data ix = (if ix < length data then Str (data ! ix) else Undefined)"

section \<open>parseBranches (src/app/git/parsers/branch.ts)\<close>

text \<open>
  \<open>keys = Object.keys(branchFormaterObject)\<close>: the field schema. The object is declared in
  \<open>@git/model\<close>, so the list of its keys is a parameter here (the keys of an object are
  distinct).

  \<open>keys.forEach((key, ix) => (entry[key] = data[ix]))\<close>, starting from the empty object.
\<close>

definition assign_fields :: "string list \<Rightarrow> string list \<Rightarrow> Branch" where
  "assign_fields keys data =
     fold (\<lambda>(key, ix) entry. entry(key \<mapsto> nth_js data ix))
          (zip keys [0 ..< length keys]) Map.empty"

text \<open>
  One iteration of the loop over \<open>records\<close> (lines 13 to 21): split the line at the literal
  separator \<open>'%x00'\<close>, fill the entry, then set \<open>ahead\<close> and \<open>behind\<close> to 0.
\<close>

definition parse_record :: "string list \<Rightarrow> string \<Rightarrow> Branch" where
  "parse_record keys record =
     (assign_fields keys (split_js ''%x00'' record))
       (''ahead'' \<mapsto> Num 0, ''behind'' \<mapsto> Num 0)"

text \<open>Lines 9 to 22: \<open>stdout.split('\n')\<close> and one pushed entry per piece, in order.\<close>

definition parse_entries :: "string list \<Rightarrow> string \<Rightarrow> Branch list" where
  "parse_entries keys stdout = map (parse_record keys) (split_js [CHR 0x0A] stdout)"

text \<open>Line 25: \<open>entries.filter(e => e.upstream).map(m => m.upstream)\<close>.\<close>

definition withUpstreamBranch :: "Branch list \<Rightarrow> jsval list" where
  "withUpstreamBranch entries =
     map (\<lambda>m. get_prop m ''upstream'') (filter (\<lambda>e. truthy (get_prop e ''upstream'')) entries)"

text \<open>
  \<open>Array.prototype.includes\<close> compares with SameValueZero, which on \<open>undefined\<close>, strings
  and integers is equality.
\<close>

definition includes_js :: "jsval list \<Rightarrow> jsval \<Rightarrow> bool" where
  "includes_js xs v = List.member xs v"

text \<open>Line 26: \<open>entries.filter(f => !withUpstreamBranch.includes(f.name))\<close>.\<close>

definition remove_upstream :: "Branch list \<Rightarrow> Branch list" where
  "remove_upstream entries =
     filter (\<lambda>f. \<not> includes_js (withUpstreamBranch entries) (get_prop f ''name'')) entries"

text \<open>
  Raw text handed over by a git command is a string, or absent (\<open>null\<close>, \<open>undefined\<close>):
  \<open>None\<close>. \<open>if (text)\<close> is false when the text is absent or the empty string.
\<close>

definition truthy_text :: "string option \<Rightarrow> bool" where
  "truthy_text t = (case t of None \<Rightarrow> False | Some raw \<Rightarrow> raw \<noteq> [])"

text \<open>
  The whole function: \<open>if (stdout)\<close> guards the parse, and the \<open>else\<close> branch throws.
\<close>

definition parseBranches :: "string list \<Rightarrow> string option \<Rightarrow> error + Branch list" where
  "parseBranches keys stdout =
     (case stdout of
        None \<Rightarrow> Inl (Error ''Failed to parse branches'')
      | Some raw \<Rightarrow>
          if raw \<noteq> [] then Inr (remove_upstream (parse_entries keys raw))
          else Inl (Error ''Failed to parse branches''))"

section \<open>RepositoryService (src/app/routes/repository/repository.service.ts)\<close>

subsection \<open>State\<close>

text \<open>
  A \<open>BehaviorSubject\<close> holds a current value and hands every value passed to \<open>next\<close> to its
  subscribers; \<open>emissions\<close> records these values, oldest first.
\<close>

record 'a BehaviorSubject =
  current :: 'a
  emissions :: "'a list"

definition subject_next :: "'a \<Rightarrow> 'a BehaviorSubject \<Rightarrow> 'a BehaviorSubject" where
  "subject_next v subj = \<lparr>current = v, emissions = emissions subj @ [v]\<rparr>"

text \<open>
  The numbers \<open>parseInt\<close> can return: \<open>NaN\<close>, a number with an integer value, or an
  infinity (it returns no fraction). \<open>+0\<close> and \<open>-0\<close>, which \<open>!==\<close> does not tell apart,
  are both \<open>Fin 0\<close>.
\<close>

datatype jsnum = NaN | Fin int | PosInfinity | NegInfinity

text \<open>
  \<open>RepositorySetting\<close> is declared in \<open>@core/services\<close>; the service reads its \<open>path\<close> only,
  through \<open>?.\<close>, so the path may be absent.
\<close>

record RepositorySetting =
  path :: "string option"

text \<open>
  The fields of the service. \<open>currentId\<close> and \<open>currentBranch\<close> are declared without an
  initial value (\<open>undefined\<close>: \<open>None\<close>); \<open>repositorySetting\<close> is \<open>null\<close> after \<open>unload\<close>.
\<close>

record RepositoryService =
  currentId :: "jsnum option"
  repositorySetting :: "RepositorySetting option"
  currentBranch :: "string option"
  loaded :: "bool BehaviorSubject"
  branches :: "Branch list option BehaviorSubject"

subsection \<open>setId\<close>

text \<open>
  \<open>this.currentId !== newId\<close>, where \<open>newId\<close> is a number: true when \<open>currentId\<close> is
  \<open>undefined\<close>, when either side is \<open>NaN\<close>, and when the two numbers differ.
\<close>

definition strict_neq :: "jsnum option \<Rightarrow> jsnum \<Rightarrow> bool" where
  "strict_neq cur newId =
     (case cur of
        None \<Rightarrow> True
      | Some old \<Rightarrow> (if old = NaN \<or> newId = NaN then True else old \<noteq> newId))"

text \<open>
  Line 53, \<open>const newId = parseInt(id)\<close>, calls a builtin of the language on the string
  \<open>id\<close>; the value it returns is the argument \<open>newId\<close> here. Lines 54 to 57 follow.
\<close>

definition setId :: "jsnum \<Rightarrow> RepositoryService \<Rightarrow> RepositoryService" where
  "setId newId s =
     (let s1 = (if strict_neq (currentId s) newId
                then s\<lparr>loaded := subject_next False (loaded s)\<rparr> else s)
      in s1\<lparr>currentId := Some newId\<rparr>)"

subsection \<open>getPath\<close>

text \<open>\<open>replace(/\\\\/g, '/')\<close>: every pair of consecutive backslashes becomes one slash.\<close>

fun replace_backslashes :: "string \<Rightarrow> string" where
  "replace_backslashes (a # b # cs) =
     (if a = CHR 0x5C \<and> b = CHR 0x5C then CHR ''/'' # replace_backslashes cs
      else a # replace_backslashes (b # cs))"
| "replace_backslashes cs = cs"

definition getPath :: "RepositoryService \<Rightarrow> string option" where
  "getPath s =
     (case repositorySetting s of
        None \<Rightarrow> None
      | Some setting \<Rightarrow>
          (case path setting of None \<Rightarrow> None | Some p \<Rightarrow> Some (replace_backslashes p)))"

subsection \<open>The git commands\<close>

text \<open>
  \<open>getBranches\<close>, \<open>getCurrentBranch\<close> (\<open>@git/commands\<close>) and \<open>countRevList\<close>
  (\<open>@git/commands/rev-list\<close>) run git; the service awaits them. They are parameters: each
  takes the path (and \<open>countRevList\<close> two refs, in the order the service passes them) and
  either rejects with an error (\<open>Inl\<close>) or resolves with a value (\<open>Inr\<close>).
\<close>

record gateway =
  cmd_getBranches :: "string option \<Rightarrow> error + string option"
  cmd_getCurrentBranch :: "string option \<Rightarrow> error + string option"
  cmd_countRevList :: "string option \<Rightarrow> jsval \<Rightarrow> jsval \<Rightarrow> error + int"

text \<open>The commands \<open>getBranches\<close> issues during one refresh, in order.\<close>

datatype call =
  GetBranches "string option"
| CountRevList "string option" jsval jsval

subsection \<open>getCurrentBranch\<close>

text \<open>
  The result is \<open>Inl\<close> when the awaited command rejects (the service is then as before),
  else the returned value together with the service after the call.
\<close>

definition getCurrentBranch ::
  "gateway \<Rightarrow> RepositoryService \<Rightarrow> error + (string option \<times> RepositoryService)" where
  "getCurrentBranch gw s =
     (case cmd_getCurrentBranch gw (getPath s) of
        Inl e \<Rightarrow> Inl e
      | Inr cb \<Rightarrow>
          (let s1 = (if truthy_text cb then s\<lparr>currentBranch := cb\<rparr> else s)
           in Inr (currentBranch s1, s1)))"

subsection \<open>getBranches\<close>

text \<open>Lines 109 and 110: \<open>element.ahead = ahead; element.behind = behind\<close>.\<close>

definition assign_counts :: "Branch \<Rightarrow> int \<Rightarrow> int \<Rightarrow> Branch" where
  "assign_counts element ahead behind =
     element(''ahead'' \<mapsto> Num ahead, ''behind'' \<mapsto> Num behind)"

text \<open>
  Line 104. \<open>upstreamBranches\<close> holds references to objects of \<open>parsedBranches\<close>; a
  reference is the position of the object in \<open>parsedBranches\<close>, and assigning to
  \<open>element.ahead\<close> updates the object at that position.
\<close>

definition upstreamBranches :: "Branch list \<Rightarrow> nat list" where
  "upstreamBranches parsedBranches =
     filter (\<lambda>i. truthy (get_prop (parsedBranches ! i) ''upstream''))
            [0 ..< length parsedBranches]"

text \<open>
  The loop of lines 105 to 111 over the remaining references. A rejected \<open>await\<close> leaves
  the loop and the function at once; both assignments follow the second \<open>await\<close>.
\<close>

fun count_loop ::
  "gateway \<Rightarrow> RepositoryService \<Rightarrow> nat list \<Rightarrow> Branch list
     \<Rightarrow> call list \<times> (error + Branch list)" where
  "count_loop gw s [] parsedBranches = ([], Inr parsedBranches)"
| "count_loop gw s (i # rest) parsedBranches =
     (let element = parsedBranches ! i;
          upstream = get_prop element ''upstream'';
          name = get_prop element ''name''
      in case cmd_countRevList gw (getPath s) upstream name of
           Inl e \<Rightarrow> ([CountRevList (getPath s) upstream name], Inl e)
         | Inr ahead \<Rightarrow>
             (case cmd_countRevList gw (getPath s) name upstream of
                Inl e \<Rightarrow>
                  ([CountRevList (getPath s) upstream name,
                    CountRevList (getPath s) name upstream], Inl e)
              | Inr behind \<Rightarrow>
                  (case count_loop gw s rest
                          (parsedBranches[i := assign_counts element ahead behind]) of
                     (calls, r) \<Rightarrow>
                       (CountRevList (getPath s) upstream name
                          # CountRevList (getPath s) name upstream # calls, r))))"

text \<open>
  The whole method, run with every \<open>await\<close> answered by the gateway and nothing else
  touching the service meanwhile. The result is the commands issued and either the error
  the returned promise rejects with (the service is then as before) or the service after
  the call.
\<close>

definition getBranches ::
  "gateway \<Rightarrow> string list \<Rightarrow> RepositoryService
     \<Rightarrow> call list \<times> (error + RepositoryService)" where
  "getBranches gw keys s =
     (case cmd_getBranches gw (getPath s) of
        Inl e \<Rightarrow> ([GetBranches (getPath s)], Inl e)
      | Inr raw \<Rightarrow>
          if truthy_text raw then
            (case parseBranches keys raw of
               Inl e \<Rightarrow> ([GetBranches (getPath s)], Inl e)
             | Inr parsedBranches \<Rightarrow>
                 (case count_loop gw s (upstreamBranches parsedBranches) parsedBranches of
                    (calls, Inl e) \<Rightarrow> (GetBranches (getPath s) # calls, Inl e)
                  | (calls, Inr resolved) \<Rightarrow>
                      (GetBranches (getPath s) # calls,
                       Inr (s\<lparr>branches := subject_next (Some resolved) (branches s)\<rparr>))))
          else ([GetBranches (getPath s)], Inr s))"

subsection \<open>getBranches, one await at a time\<close>

text \<open>
  An \<open>async\<close> method runs up to its next \<open>await\<close> and gives control back; other calls on
  the service (\<open>setId\<close>) may run before the awaited command answers. A \<open>task\<close> is the
  suspended method: which \<open>await\<close> it stands at and the values of its local variables
  (\<open>parsedBranches\<close>, the reference \<open>element\<close> with the references still to visit, and
  \<open>ahead\<close>), or how it ended.
\<close>

datatype task =
  AwaitBranches
| AwaitAhead "Branch list" nat "nat list"
| AwaitBehind "Branch list" nat "nat list" int
| Resolved
| Rejected error

datatype reply = Rejects error | Text "string option" | Count int

text \<open>
  The loop head (line 105): with no reference left the method publishes \<open>parsedBranches\<close>
  (line 112) and ends; otherwise it issues the first count for the next element and
  waits. Each function returns the task, the service and the commands it issued.
\<close>

fun enter_loop ::
  "Branch list \<Rightarrow> nat list \<Rightarrow> RepositoryService \<Rightarrow> task \<times> RepositoryService \<times> call list" where
  "enter_loop parsedBranches [] s =
     (Resolved, s\<lparr>branches := subject_next (Some parsedBranches) (branches s)\<rparr>, [])"
| "enter_loop parsedBranches (i # rest) s =
     (AwaitAhead parsedBranches i rest, s,
      [CountRevList (getPath s) (get_prop (parsedBranches ! i) ''upstream'')
                    (get_prop (parsedBranches ! i) ''name'')])"

definition getBranches_start :: "RepositoryService \<Rightarrow> task \<times> RepositoryService \<times> call list" where
  "getBranches_start s = (AwaitBranches, s, [GetBranches (getPath s)])"

text \<open>
  The method resumed with the answer to the command it waits for, in the service as it is
  at that moment. An answer of the wrong kind is not delivered to a task.
\<close>

fun resume ::
  "string list \<Rightarrow> task \<Rightarrow> reply \<Rightarrow> RepositoryService \<Rightarrow> task \<times> RepositoryService \<times> call list" where
  "resume keys AwaitBranches (Rejects e) s = (Rejected e, s, [])"
| "resume keys AwaitBranches (Text raw) s =
     (if truthy_text raw then
        (case parseBranches keys raw of
           Inl e \<Rightarrow> (Rejected e, s, [])
         | Inr parsedBranches \<Rightarrow>
             enter_loop parsedBranches (upstreamBranches parsedBranches) s)
      else (Resolved, s, []))"
| "resume keys (AwaitAhead parsedBranches i rest) (Rejects e) s = (Rejected e, s, [])"
| "resume keys (AwaitAhead parsedBranches i rest) (Count ahead) s =
     (AwaitBehind parsedBranches i rest ahead, s,
      [CountRevList (getPath s) (get_prop (parsedBranches ! i) ''name'')
                    (get_prop (parsedBranches ! i) ''upstream'')])"
| "resume keys (AwaitBehind parsedBranches i rest ahead) (Rejects e) s = (Rejected e, s, [])"
| "resume keys (AwaitBehind parsedBranches i rest ahead) (Count behind) s =
     enter_loop (parsedBranches[i := assign_counts (parsedBranches ! i) ahead behind]) rest s"
| "resume keys t r s = (t, s, [])"

text \<open>
  What happens to a service with one refresh in flight: a command answers, or a caller
  invokes \<open>setId\<close> (the event carries the value of \<open>parseInt(id)\<close>).
\<close>

datatype event = Reply reply | SetId jsnum

fun step :: "string list \<Rightarrow> event \<Rightarrow> task \<times> RepositoryService \<Rightarrow> task \<times> RepositoryService" where
  "step keys (Reply r) (t, s) = (case resume keys t r s of (t1, s1, calls) \<Rightarrow> (t1, s1))"
| "step keys (SetId newId) (t, s) = (t, setId newId s)"

definition run_events ::
  "string list \<Rightarrow> event list \<Rightarrow> task \<times> RepositoryService \<Rightarrow> task \<times> RepositoryService" where
  "run_events keys evs ts = fold (step keys) evs ts"

fun is_reply :: "event \<Rightarrow> bool" where
  "is_reply (Reply r) = True"
| "is_reply (SetId newId) = False"

text \<open>
  The answers the gateway gives to the loop when nothing interferes, in order: they turn
  the sequential reading \<open>count_loop\<close> into a run of the task.
\<close>

fun loop_replies :: "gateway \<Rightarrow> RepositoryService \<Rightarrow> nat list \<Rightarrow> Branch list \<Rightarrow> reply list" where
  "loop_replies gw s [] parsedBranches = []"
| "loop_replies gw s (i # rest) parsedBranches =
     (let element = parsedBranches ! i;
          upstream = get_prop element ''upstream'';
          name = get_prop element ''name''
      in case cmd_countRevList gw (getPath s) upstream name of
           Inl e \<Rightarrow> [Rejects e]
         | Inr ahead \<Rightarrow>
             (case cmd_countRevList gw (getPath s) name upstream of
                Inl e \<Rightarrow> [Count ahead, Rejects e]
              | Inr behind \<Rightarrow>
                  Count ahead # Count behind #
                  loop_replies gw s rest
                    (parsedBranches[i := assign_counts element ahead behind])))"

text \<open>The answers of the gateway to one whole refresh started in \<open>s\<close>.\<close>

definition gateway_replies :: "gateway \<Rightarrow> string list \<Rightarrow> RepositoryService \<Rightarrow> reply list" where
  "gateway_replies gw keys s =
     (case cmd_getBranches gw (getPath s) of
        Inl e \<Rightarrow> [Rejects e]
      | Inr raw \<Rightarrow>
          Text raw #
          (if truthy_text raw then
             (case parseBranches keys raw of
                Inl e \<Rightarrow> []
              | Inr parsedBranches \<Rightarrow>
                  loop_replies gw s (upstreamBranches parsedBranches) parsedBranches)
           else []))"

text \<open>
  Two services show a refresh the same things when they agree on everything but
  \<open>currentId\<close> and \<open>loaded\<close>, the two fields \<open>setId\<close> writes.
\<close>

definition published_alike :: "RepositoryService \<Rightarrow> RepositoryService \<Rightarrow> bool" where
  "published_alike s s' =
     (branches s = branches s' \<and> currentBranch s = currentBranch s' \<and>
      repositorySetting s = repositorySetting s')"

section \<open>Example data\<close>

text \<open>The schema used in the examples: the two fields the code reads by name.\<close>

definition example_keys :: "string list" where
  "example_keys = [''name'', ''upstream'']"

text \<open>A gateway whose commands answer the same at every path.\<close>

definition const_gateway ::
  "string option \<Rightarrow> string option \<Rightarrow> (jsval \<Rightarrow> jsval \<Rightarrow> error + int) \<Rightarrow> gateway" where
  "const_gateway listing head counts =
     \<lparr>cmd_getBranches = (\<lambda>p. Inr listing),
      cmd_getCurrentBranch = (\<lambda>p. Inr head),
      cmd_countRevList = (\<lambda>p a b. counts a b)\<rparr>"

text \<open>
  Counting answers 2 for \<open>(origin/feature, feature)\<close> and 5 for every other pair of refs.
\<close>

definition count_2_5_value :: "jsval \<Rightarrow> jsval \<Rightarrow> int" where
  "count_2_5_value a b = (if a = Str ''origin/feature'' \<and> b = Str ''feature'' then 2 else 5)"

definition count_2_5 :: "jsval \<Rightarrow> jsval \<Rightarrow> error + int" where
  "count_2_5 a b = Inr (count_2_5_value a b)"

text \<open>Counting fails for the branch \<open>feature\<close> and answers 1 for every other pair.\<close>

definition count_failing :: "jsval \<Rightarrow> jsval \<Rightarrow> error + int" where
  "count_failing a b =
     (if a = Str ''feature'' \<or> b = Str ''feature'' then Inl (Error ''rev-list failed'')
      else Inr 1)"

text \<open>
  A loaded service for repository 1 at \<open>/repo\<close>, on branch \<open>main\<close>, with one published
  branch.
\<close>

definition example_service :: RepositoryService where
  "example_service =
     \<lparr>currentId = Some (Fin 1),
      repositorySetting = Some \<lparr>path = Some ''/repo''\<rparr>,
      currentBranch = Some ''main'',
      loaded = \<lparr>current = True, emissions = [True]\<rparr>,
      branches = \<lparr>current = Some [[''name'' \<mapsto> Str ''main'']],
                  emissions = [Some [[''name'' \<mapsto> Str ''main'']]]\<rparr>\<rparr>"

text \<open>
  Four listings: one tracked branch; one branch followed by a newline, so that the text
  ends in a blank line; a tracked branch followed by a line that holds its upstream's name
  and nothing else; two tracked branches on two lines.
\<close>

definition listing_feature :: string where
  "listing_feature = ''feature%x00origin/feature''"

definition listing_blank_line :: string where
  "listing_blank_line = ''main%x00origin/main'' @ [CHR 0x0A]"

definition listing_short_line :: string where
  "listing_short_line = ''feature%x00origin/feature'' @ [CHR 0x0A] @ ''origin/feature''"

definition listing_two :: string where
  "listing_two = ''feature%x00origin/feature'' @ [CHR 0x0A] @ ''topic%x00origin/topic''"

section \<open>The deduplication rule in the specification's words\<close>

text \<open>
  A field of a record is text or absent, never a number; it is non-empty when it is
  present and not the empty string.
\<close>

fun text_field :: "jsval \<Rightarrow> bool" where
  "text_field (Num n) = False"
| "text_field v = True"

definition non_empty :: "jsval \<Rightarrow> bool" where
  "non_empty v = (v \<noteq> Undefined \<and> v \<noteq> Str [])"

text \<open>
  Step 1: \<open>U\<close>, the set of non-empty upstream values over all records. Step 2: the records
  whose name is not in \<open>U\<close>, in their order.
\<close>

definition spec_U :: "Branch list \<Rightarrow> jsval set" where
  "spec_U records =
     (\<lambda>r. get_prop r ''upstream'') ` {r \<in> set records. non_empty (get_prop r ''upstream'')}"

definition spec_dedup :: "Branch list \<Rightarrow> Branch list" where
  "spec_dedup records = filter (\<lambda>r. get_prop r ''name'' \<notin> spec_U records) records"

section \<open>Divergence in the specification's words\<close>

text \<open>
  The specification's \<open>countReachable(path, fromRef, excludingRef)\<close> is the service's
  \<open>countRevList(path, a, b)\<close>, argument for argument. For a branch with a non-empty
  upstream, \<open>ahead = countReachable(from: upstream, excluding: name)\<close> and
  \<open>behind = countReachable(from: name, excluding: upstream)\<close>; any other branch is left as
  parsed.
\<close>

definition spec_divergence :: "(jsval \<Rightarrow> jsval \<Rightarrow> int) \<Rightarrow> Branch \<Rightarrow> Branch" where
  "spec_divergence countReachable b =
     (if non_empty (get_prop b ''upstream'')
      then b(''ahead'' \<mapsto> Num (countReachable (get_prop b ''upstream'') (get_prop b ''name'')),
             ''behind'' \<mapsto> Num (countReachable (get_prop b ''name'') (get_prop b ''upstream'')))
      else b)"

text \<open>The two counting calls of one branch, in the order they are issued.\<close>

definition count_calls :: "string option \<Rightarrow> Branch \<Rightarrow> call list" where
  "count_calls p b =
     [CountRevList p (get_prop b ''upstream'') (get_prop b ''name''),
      CountRevList p (get_prop b ''name'') (get_prop b ''upstream'')]"

text \<open>
  One pass of the loop body (lines 106 to 110) over a branch when the two counts answer
  \<open>cnt upstream name\<close> and \<open>cnt name upstream\<close>.
\<close>

definition with_counts :: "(jsval \<Rightarrow> jsval \<Rightarrow> int) \<Rightarrow> Branch \<Rightarrow> Branch" where
  "with_counts cnt b =
     assign_counts b (cnt (get_prop b ''upstream'') (get_prop b ''name''))
                     (cnt (get_prop b ''name'') (get_prop b ''upstream''))"

text \<open>The two counts of a branch both answer, with the values \<open>cnt\<close> gives.\<close>

definition counts_answer ::
  "gateway \<Rightarrow> string option \<Rightarrow> (jsval \<Rightarrow> jsval \<Rightarrow> int) \<Rightarrow> Branch \<Rightarrow> bool" where
  "counts_answer gw p cnt b =
     (cmd_countRevList gw p (get_prop b ''upstream'') (get_prop b ''name'')
        = Inr (cnt (get_prop b ''upstream'') (get_prop b ''name'')) \<and>
      cmd_countRevList gw p (get_prop b ''name'') (get_prop b ''upstream'')
        = Inr (cnt (get_prop b ''name'') (get_prop b ''upstream'')))"

text \<open>One of the two counts of a branch rejects: the first, or the second after the first answered.\<close>

definition count_rejects :: "gateway \<Rightarrow> string option \<Rightarrow> Branch \<Rightarrow> bool" where
  "count_rejects gw p b =
     (case cmd_countRevList gw p (get_prop b ''upstream'') (get_prop b ''name'') of
        Inl e \<Rightarrow> True
      | Inr ahead \<Rightarrow>
          (case cmd_countRevList gw p (get_prop b ''name'') (get_prop b ''upstream'') of
             Inl e \<Rightarrow> True
           | Inr behind \<Rightarrow> False))"

section \<open>Deduplication (parseBranches, lines 24 to 28)\<close>

lemma truthy_text_field: "text_field v \<Longrightarrow> truthy v = non_empty v"
  by (cases v) (auto simp: non_empty_def)

lemma withUpstreamBranch_set:
  "\<forall>r \<in> set records. text_field (get_prop r ''upstream'') \<Longrightarrow>
   set (withUpstreamBranch records) = spec_U records"
  unfolding withUpstreamBranch_def spec_U_def
  by (auto simp: truthy_text_field)

lemma remove_upstream_spec:
  "\<forall>r \<in> set records. text_field (get_prop r ''upstream'') \<Longrightarrow>
   remove_upstream records = spec_dedup records"
  unfolding remove_upstream_def spec_dedup_def includes_js_def
  by (simp add: withUpstreamBranch_set)

text \<open>Every field the parser assigns is a piece of the line or \<open>undefined\<close>.\<close>

lemma fold_assign_range:
  "(\<forall>k. m k = None \<or> (\<exists>ix. m k = Some (nth_js data ix))) \<Longrightarrow>
   fold (\<lambda>(key, ix) entry. entry(key \<mapsto> nth_js data ix)) kis m k = None \<or>
   (\<exists>ix. fold (\<lambda>(key, ix) entry. entry(key \<mapsto> nth_js data ix)) kis m k
           = Some (nth_js data ix))"
proof (induction kis arbitrary: m)
  case Nil
  then show ?case by simp
next
  case (Cons a kis)
  obtain key ix where a: "a = (key, ix)" by (cases a)
  have "\<forall>k. (m(key \<mapsto> nth_js data ix)) k = None \<or>
            (\<exists>j. (m(key \<mapsto> nth_js data ix)) k = Some (nth_js data j))"
    using Cons.prems by auto
  from Cons.IH[OF this] show ?case using a by (simp del: fun_upd_apply)
qed

lemma assign_fields_text: "text_field (get_prop (assign_fields keys data) k)"
proof -
  have "assign_fields keys data k = None \<or>
        (\<exists>ix. assign_fields keys data k = Some (nth_js data ix))"
    unfolding assign_fields_def by (rule fold_assign_range) simp
  then show ?thesis by (auto simp: get_prop_def nth_js_def)
qed

lemma parse_record_text:
  "k \<noteq> ''ahead'' \<Longrightarrow> k \<noteq> ''behind'' \<Longrightarrow> text_field (get_prop (parse_record keys line) k)"
  using assign_fields_text[of keys "split_js ''%x00'' line" k]
  by (simp add: parse_record_def get_prop_def)

lemma parse_entries_text:
  "\<forall>r \<in> set (parse_entries keys raw). text_field (get_prop r ''upstream'')"
  by (auto simp: parse_entries_def parse_record_text)

text \<open>
  C1. For every sequence of records with text fields, the filter of lines 25 and 26 keeps
  exactly the records whose name is not in the set \<open>U\<close> of non-empty upstream values, in
  their order, and so the collection \<open>parseBranches\<close> returns for a non-empty text is the
  parsed entries filtered by that rule. On the four records \<open>main\<close>, \<open>origin/main\<close>,
  \<open>feature\<close> (tracking \<open>origin/feature\<close>) and \<open>origin/feature\<close> the result drops
  \<open>origin/feature\<close> and keeps the other three.
\<close>

theorem remove_upstream_dedup_rule:
  assumes "\<forall>r \<in> set records. text_field (get_prop r ''upstream'')"
  shows "remove_upstream records = spec_dedup records \<and>
         parseBranches keys (Some raw) =
           (if raw = [] then Inl (Error ''Failed to parse branches'')
            else Inr (spec_dedup (parse_entries keys raw))) \<and>
         remove_upstream
           [[''name'' \<mapsto> Str ''main''], [''name'' \<mapsto> Str ''origin/main''],
            [''name'' \<mapsto> Str ''feature'', ''upstream'' \<mapsto> Str ''origin/feature''],
            [''name'' \<mapsto> Str ''origin/feature'']] =
           [[''name'' \<mapsto> Str ''main''], [''name'' \<mapsto> Str ''origin/main''],
            [''name'' \<mapsto> Str ''feature'', ''upstream'' \<mapsto> Str ''origin/feature'']]"
proof (intro conjI)
  show "remove_upstream records = spec_dedup records"
    using assms by (rule remove_upstream_spec)
  show "parseBranches keys (Some raw) =
           (if raw = [] then Inl (Error ''Failed to parse branches'')
            else Inr (spec_dedup (parse_entries keys raw)))"
    by (simp add: parseBranches_def remove_upstream_spec[OF parse_entries_text])
  show "remove_upstream
           [[''name'' \<mapsto> Str ''main''], [''name'' \<mapsto> Str ''origin/main''],
            [''name'' \<mapsto> Str ''feature'', ''upstream'' \<mapsto> Str ''origin/feature''],
            [''name'' \<mapsto> Str ''origin/feature'']] =
           [[''name'' \<mapsto> Str ''main''], [''name'' \<mapsto> Str ''origin/main''],
            [''name'' \<mapsto> Str ''feature'', ''upstream'' \<mapsto> Str ''origin/feature'']]"
    by (simp add: remove_upstream_def withUpstreamBranch_def includes_js_def get_prop_def)
qed

theorem remove_upstream_dedup_rule_witness:
  "spec_dedup
     [[''name'' \<mapsto> Str ''main''], [''name'' \<mapsto> Str ''origin/main''],
      [''name'' \<mapsto> Str ''feature'', ''upstream'' \<mapsto> Str ''origin/feature''],
      [''name'' \<mapsto> Str ''origin/feature'']] =
     [[''name'' \<mapsto> Str ''main''], [''name'' \<mapsto> Str ''origin/main''],
      [''name'' \<mapsto> Str ''feature'', ''upstream'' \<mapsto> Str ''origin/feature'']]"
proof -
  have h: "\<forall>r \<in> set
             [[''name'' \<mapsto> Str ''main''], [''name'' \<mapsto> Str ''origin/main''],
              [''name'' \<mapsto> Str ''feature'', ''upstream'' \<mapsto> Str ''origin/feature''],
              [''name'' \<mapsto> Str ''origin/feature'']].
           text_field (get_prop r ''upstream'')"
    by (simp add: get_prop_def)
  note rule = remove_upstream_dedup_rule[OF h, of example_keys listing_feature]
  show ?thesis
    by (rule trans[OF rule[THEN conjunct1, symmetric] rule[THEN conjunct2, THEN conjunct2]])
qed

section \<open>Empty and absent input (parseBranches, lines 6 and 31 to 33)\<close>

text \<open>
  C8. \<open>parseBranches\<close> applied to the empty string throws, and so it does applied to an
  absent text (\<open>null\<close>, \<open>undefined\<close>); neither is returned as an empty sequence of records.
  The error is the one the function has: \<open>Error('Failed to parse branches')\<close>.
\<close>

theorem parseBranches_empty_or_absent_fails:
  "parseBranches keys (Some []) = Inl (Error ''Failed to parse branches'') \<and>
   parseBranches keys None = Inl (Error ''Failed to parse branches'') \<and>
   parseBranches keys (Some []) \<noteq> Inr [] \<and>
   parseBranches keys None \<noteq> Inr []"
  by (simp add: parseBranches_def)

section \<open>One record per line (parseBranches, lines 9 to 22)\<close>

lemma parseBranches_nonempty:
  "raw \<noteq> [] \<Longrightarrow> parseBranches keys (Some raw) = Inr (remove_upstream (parse_entries keys raw))"
  by (simp add: parseBranches_def)

lemma split_on_single_length:
  "length (split_on [c] acc s) = Suc (count_list s c)"
  by (induction "[c]" acc s rule: split_on.induct) auto

lemma split_js_lines_length:
  "length (split_js [CHR 0x0A] raw) = Suc (count_list raw (CHR 0x0A))"
  by (simp add: split_js_def split_on_single_length)

lemma fold_assign_other:
  "k \<notin> set ks \<Longrightarrow>
   fold (\<lambda>(key, ix) entry. entry(key \<mapsto> g ix)) (zip ks ns) m k = m k"
  by (induction ks arbitrary: ns m) (auto split: list.splits simp: zip_Cons1)

lemma fold_assign_nth:
  "distinct ks \<Longrightarrow> i < length ks \<Longrightarrow> length ns = length ks \<Longrightarrow>
   fold (\<lambda>(key, ix) entry. entry(key \<mapsto> g ix)) (zip ks ns) m (ks ! i) = Some (g (ns ! i))"
proof (induction ks arbitrary: ns m i)
  case Nil
  then show ?case by simp
next
  case (Cons k ks)
  then obtain n ns' where ns: "ns = n # ns'" by (cases ns) auto
  show ?case
  proof (cases i)
    case 0
    from Cons.prems have "k \<notin> set ks" by simp
    from fold_assign_other[OF this, of g ns' "m(k \<mapsto> g n)"]
    show ?thesis using 0 ns by (simp del: fun_upd_apply add: fun_upd_same)
  next
    case (Suc j)
    with Cons.prems ns Cons.IH[of j ns' "m(k \<mapsto> g n)"] show ?thesis
      by (simp del: fun_upd_apply)
  qed
qed

lemma assign_fields_nth:
  "distinct keys \<Longrightarrow> ix < length keys \<Longrightarrow>
   assign_fields keys data (keys ! ix) = Some (nth_js data ix)"
  unfolding assign_fields_def
  using fold_assign_nth[of keys ix "[0 ..< length keys]" "nth_js data" Map.empty]
  by simp

lemma parse_record_nth:
  "distinct keys \<Longrightarrow> ix < length keys \<Longrightarrow> keys ! ix \<noteq> ''ahead'' \<Longrightarrow> keys ! ix \<noteq> ''behind'' \<Longrightarrow>
   parse_record keys line (keys ! ix) = Some (nth_js (split_js ''%x00'' line) ix)"
  by (simp add: parse_record_def assign_fields_nth)

lemma split_blank: "split_js ''%x00'' [] = [[]]"
  by (simp add: split_js_def)

lemma parse_record_blank_name: "\<not> truthy (get_prop (parse_record keys []) ''name'')"
proof -
  have "assign_fields keys [[]] ''name'' = None \<or>
        (\<exists>ix. assign_fields keys [[]] ''name'' = Some (nth_js [[]] ix))"
    unfolding assign_fields_def by (rule fold_assign_range) simp
  then show ?thesis
    by (auto simp: parse_record_def split_blank get_prop_def nth_js_def split: if_splits)
qed

lemma withUpstreamBranch_truthy: "v \<in> set (withUpstreamBranch entries) \<Longrightarrow> truthy v"
  by (auto simp: withUpstreamBranch_def)

lemma remove_upstream_keeps_falsy_name:
  "r \<in> set entries \<Longrightarrow> \<not> truthy (get_prop r ''name'') \<Longrightarrow> r \<in> set (remove_upstream entries)"
  using withUpstreamBranch_truthy[of "get_prop r ''name''" entries]
  by (auto simp: remove_upstream_def includes_js_def)

text \<open>
  C3 as stated fails. With the schema \<open>name, upstream\<close> and a listing of one branch
  followed by a newline, the blank last line has fewer fields than the schema; it is
  neither dropped nor refused: \<open>parseBranches\<close> returns two records, the second with the
  empty name and an undefined upstream.
\<close>

theorem parseBranches_blank_line_counterexample:
  "parseBranches example_keys (Some listing_blank_line)
     = Inr [parse_record example_keys ''main%x00origin/main'', parse_record example_keys []] \<and>
   length (split_js ''%x00'' []) < length example_keys \<and>
   get_prop (parse_record example_keys []) ''name'' = Str [] \<and>
   get_prop (parse_record example_keys []) ''upstream'' = Undefined"
proof -
  have main: "get_prop (parse_record example_keys ''main%x00origin/main'') ''name'' = Str ''main''"
     "get_prop (parse_record example_keys ''main%x00origin/main'') ''upstream'' = Str ''origin/main''"
    by (simp_all add: parse_record_def example_keys_def assign_fields_def split_js_def nth_js_def
          get_prop_def)
  have blank: "get_prop (parse_record example_keys []) ''name'' = Str []"
     "get_prop (parse_record example_keys []) ''upstream'' = Undefined"
    by (simp_all add: parse_record_def example_keys_def assign_fields_def split_js_def nth_js_def
          get_prop_def)
  have entries: "parse_entries example_keys listing_blank_line
      = [parse_record example_keys ''main%x00origin/main'', parse_record example_keys []]"
    by (simp add: parse_entries_def split_js_def listing_blank_line_def)
  have ne: "listing_blank_line \<noteq> []" by (simp add: listing_blank_line_def)
  have short: "length (split_js ''%x00'' []) < length example_keys"
    by (simp add: split_blank example_keys_def)
  show ?thesis
    by (simp add: parseBranches_def entries remove_upstream_def withUpstreamBranch_def
          includes_js_def main blank short ne)
qed

text \<open>
  C3, amended. For every raw text with \<open>N\<close> lines (one more than its newlines) and every
  schema of distinct keys, the parse loop builds exactly \<open>N\<close> records, one per line in
  order, however many fields a line has, and \<open>parseBranches\<close> does not fail on a non-empty
  text: it returns these records without those the filter of lines 25 and 26 removes, the
  records whose name is a non-empty upstream of some record. In every record \<open>ahead\<close> and
  \<open>behind\<close> are 0, and every other key of the schema holds the piece of the line at the
  position of the key, or \<open>undefined\<close> when the line has fewer pieces; so on a line with at
  least as many pieces as the schema has keys, all these keys hold text. No record is
  dropped or refused for having too few fields: a record whose name is empty or undefined,
  the record of a blank line among them, is always part of the returned collection.
\<close>

theorem parse_entries_one_record_per_line:
  assumes "distinct keys"
  shows "length (parse_entries keys raw) = Suc (count_list raw (CHR 0x0A)) \<and>
         (raw \<noteq> [] \<longrightarrow>
            parseBranches keys (Some raw) = Inr (remove_upstream (parse_entries keys raw))) \<and>
         (\<forall>i < length (parse_entries keys raw). \<forall>ix < length keys.
            keys ! ix \<noteq> ''ahead'' \<longrightarrow> keys ! ix \<noteq> ''behind'' \<longrightarrow>
            (parse_entries keys raw ! i) (keys ! ix)
              = Some (nth_js (split_js ''%x00'' (split_js [CHR 0x0A] raw ! i)) ix)) \<and>
         (\<forall>i < length (parse_entries keys raw).
            split_js [CHR 0x0A] raw ! i = [] \<longrightarrow>
            \<not> truthy (get_prop (parse_entries keys raw ! i) ''name'') \<and>
            parse_entries keys raw ! i \<in> set (remove_upstream (parse_entries keys raw))) \<and>
         (\<forall>i < length (parse_entries keys raw). \<forall>ix < length keys.
            length keys \<le> length (split_js ''%x00'' (split_js [CHR 0x0A] raw ! i)) \<longrightarrow>
            keys ! ix \<noteq> ''ahead'' \<longrightarrow> keys ! ix \<noteq> ''behind'' \<longrightarrow>
            (\<exists>t. (parse_entries keys raw ! i) (keys ! ix) = Some (Str t))) \<and>
         (\<forall>i < length (parse_entries keys raw).
            (parse_entries keys raw ! i) ''ahead'' = Some (Num 0) \<and>
            (parse_entries keys raw ! i) ''behind'' = Some (Num 0)) \<and>
         remove_upstream (parse_entries keys raw) = spec_dedup (parse_entries keys raw) \<and>
         (\<forall>r \<in> set (parse_entries keys raw).
            \<not> non_empty (get_prop r ''name'') \<longrightarrow>
            r \<in> set (remove_upstream (parse_entries keys raw)))"
proof (intro conjI allI impI ballI)
  show "length (parse_entries keys raw) = Suc (count_list raw (CHR 0x0A))"
    by (simp add: parse_entries_def split_js_lines_length)
next
  assume "raw \<noteq> []"
  then show "parseBranches keys (Some raw) = Inr (remove_upstream (parse_entries keys raw))"
    by (rule parseBranches_nonempty)
next
  fix i ix
  assume "i < length (parse_entries keys raw)" "ix < length keys"
     "keys ! ix \<noteq> ''ahead''" "keys ! ix \<noteq> ''behind''"
  then show "(parse_entries keys raw ! i) (keys ! ix)
              = Some (nth_js (split_js ''%x00'' (split_js [CHR 0x0A] raw ! i)) ix)"
    using assms by (simp add: parse_entries_def parse_record_nth)
next
  fix i
  assume i: "i < length (parse_entries keys raw)" and blank: "split_js [CHR 0x0A] raw ! i = []"
  then have rec: "parse_entries keys raw ! i = parse_record keys []"
    by (simp add: parse_entries_def)
  show "\<not> truthy (get_prop (parse_entries keys raw ! i) ''name'')"
    unfolding rec by (rule parse_record_blank_name)
  then show "parse_entries keys raw ! i \<in> set (remove_upstream (parse_entries keys raw))"
    using i by (intro remove_upstream_keeps_falsy_name) simp_all
next
  fix i ix
  assume "i < length (parse_entries keys raw)" "ix < length keys"
     "length keys \<le> length (split_js ''%x00'' (split_js [CHR 0x0A] raw ! i))"
     "keys ! ix \<noteq> ''ahead''" "keys ! ix \<noteq> ''behind''"
  then show "\<exists>t. (parse_entries keys raw ! i) (keys ! ix) = Some (Str t)"
    using assms by (simp add: parse_entries_def parse_record_nth nth_js_def)
next
  fix i
  assume "i < length (parse_entries keys raw)"
  then show "(parse_entries keys raw ! i) ''ahead'' = Some (Num 0)"
    by (simp add: parse_entries_def parse_record_def)
next
  fix i
  assume "i < length (parse_entries keys raw)"
  then show "(parse_entries keys raw ! i) ''behind'' = Some (Num 0)"
    by (simp add: parse_entries_def parse_record_def)
next
  show "remove_upstream (parse_entries keys raw) = spec_dedup (parse_entries keys raw)"
    by (rule remove_upstream_spec[OF parse_entries_text])
next
  fix r
  assume r: "r \<in> set (parse_entries keys raw)" and name: "\<not> non_empty (get_prop r ''name'')"
  from r have "text_field (get_prop r ''name'')"
    by (auto simp: parse_entries_def parse_record_text)
  with name have "\<not> truthy (get_prop r ''name'')" by (simp add: truthy_text_field)
  with r show "r \<in> set (remove_upstream (parse_entries keys raw))"
    by (rule remove_upstream_keeps_falsy_name)
qed


lemma lines_blank_line:
  "split_js [CHR 0x0A] listing_blank_line = [''main%x00origin/main'', []]"
  by (simp add: split_js_def listing_blank_line_def)

lemma fields_main: "split_js ''%x00'' ''main%x00origin/main'' = [''main'', ''origin/main'']"
  by (simp add: split_js_def)

theorem parse_entries_one_record_per_line_witness:
  "length (parse_entries example_keys listing_blank_line) = 2 \<and>
   parseBranches example_keys (Some listing_blank_line)
     = Inr (remove_upstream (parse_entries example_keys listing_blank_line)) \<and>
   (parse_entries example_keys listing_blank_line ! 0) ''name'' = Some (Str ''main'') \<and>
   (parse_entries example_keys listing_blank_line ! 0) ''upstream'' = Some (Str ''origin/main'') \<and>
   (parse_entries example_keys listing_blank_line ! 1) ''name'' = Some (Str []) \<and>
   (parse_entries example_keys listing_blank_line ! 1) ''upstream'' = Some Undefined \<and>
   \<not> truthy (get_prop (parse_entries example_keys listing_blank_line ! 1) ''name'') \<and>
   parse_entries example_keys listing_blank_line ! 1
     \<in> set (remove_upstream (parse_entries example_keys listing_blank_line)) \<and>
   (parse_entries [''name'', ''ahead'', ''upstream''] ''a%x007%x00b'' ! 0) ''ahead''
     = Some (Num 0) \<and>
   parseBranches example_keys (Some listing_short_line)
     = Inr [parse_record example_keys ''feature%x00origin/feature'']"
proof -
  have d: "distinct example_keys" by (simp add: example_keys_def)
  note t = parse_entries_one_record_per_line[OF d, of listing_blank_line]
  have len: "length (parse_entries example_keys listing_blank_line) = 2"
    using t[THEN conjunct1] by (simp add: listing_blank_line_def)
  have ne: "listing_blank_line \<noteq> []" by (simp add: listing_blank_line_def)
  have run: "parseBranches example_keys (Some listing_blank_line)
     = Inr (remove_upstream (parse_entries example_keys listing_blank_line))"
    using t[THEN conjunct2, THEN conjunct1] ne by simp
  have keys: "length example_keys = 2" "example_keys ! 0 = ''name''"
      "example_keys ! Suc 0 = ''upstream''"
    by (simp_all add: example_keys_def)
  note field = t[THEN conjunct2, THEN conjunct2, THEN conjunct1, rule_format]
  have f00: "(parse_entries example_keys listing_blank_line ! 0) ''name'' = Some (Str ''main'')"
    using field[of 0 0] by (simp add: len keys lines_blank_line fields_main split_blank nth_js_def)
  have f01: "(parse_entries example_keys listing_blank_line ! 0) ''upstream''
               = Some (Str ''origin/main'')"
    using field[of 0 1] by (simp add: len keys lines_blank_line fields_main split_blank nth_js_def)
  have f10: "(parse_entries example_keys listing_blank_line ! 1) ''name'' = Some (Str [])"
    using field[of 1 0] by (simp add: len keys lines_blank_line fields_main split_blank nth_js_def)
  have f11: "(parse_entries example_keys listing_blank_line ! 1) ''upstream'' = Some Undefined"
    using field[of 1 1] by (simp add: len keys lines_blank_line fields_main split_blank nth_js_def)
  have blank: "\<not> truthy (get_prop (parse_entries example_keys listing_blank_line ! 1) ''name'') \<and>
     parse_entries example_keys listing_blank_line ! 1
       \<in> set (remove_upstream (parse_entries example_keys listing_blank_line))"
    using t[THEN conjunct2, THEN conjunct2, THEN conjunct2, THEN conjunct1, rule_format, of 1]
    by (simp add: len lines_blank_line)
  have d3: "distinct [''name'', ''ahead'', ''upstream'']" by simp
  note t3 = parse_entries_one_record_per_line[OF d3, of "''a%x007%x00b''"]
  have ahead0: "(parse_entries [''name'', ''ahead'', ''upstream''] ''a%x007%x00b'' ! 0) ''ahead''
                  = Some (Num 0)"
    using t3[THEN conjunct1]
      t3[THEN conjunct2, THEN conjunct2, THEN conjunct2, THEN conjunct2, THEN conjunct2,
         THEN conjunct1, rule_format, of 0]
    by simp
  note ts = parse_entries_one_record_per_line[OF d, of listing_short_line]
  have ne_short: "listing_short_line \<noteq> []" by (simp add: listing_short_line_def)
  have entries_short: "parse_entries example_keys listing_short_line
      = [parse_record example_keys ''feature%x00origin/feature'',
         parse_record example_keys ''origin/feature'']"
    by (simp add: parse_entries_def split_js_def listing_short_line_def)
  have short_name: "get_prop (parse_record example_keys ''origin/feature'') ''name''
                      = Str ''origin/feature''"
     "get_prop (parse_record example_keys ''origin/feature'') ''upstream'' = Undefined"
    by (simp_all add: parse_record_def example_keys_def assign_fields_def split_js_def nth_js_def
          get_prop_def)
  have long_name: "get_prop (parse_record example_keys ''feature%x00origin/feature'') ''name''
                     = Str ''feature''"
     "get_prop (parse_record example_keys ''feature%x00origin/feature'') ''upstream''
        = Str ''origin/feature''"
    by (simp_all add: parse_record_def example_keys_def assign_fields_def split_js_def nth_js_def
          get_prop_def)
  have short: "parseBranches example_keys (Some listing_short_line)
     = Inr [parse_record example_keys ''feature%x00origin/feature'']"
    using ts[THEN conjunct2, THEN conjunct1] ne_short
    by (simp add: entries_short remove_upstream_def withUpstreamBranch_def includes_js_def
          long_name short_name)
  show ?thesis using len run f00 f01 f10 f11 blank ahead0 short by simp
qed

section \<open>getCurrentBranch\<close>

text \<open>
  C10. When the current-branch command answers with an empty or absent text,
  \<open>getCurrentBranch\<close> leaves the service as it was, the stored \<open>currentBranch\<close> included,
  and returns that stored value (which may be \<open>undefined\<close>); it neither fails nor clears
  the field.
\<close>

theorem getCurrentBranch_empty_keeps_previous:
  assumes "cmd_getCurrentBranch gw (getPath s) = Inr cb" and "\<not> truthy_text cb"
  shows "getCurrentBranch gw s = Inr (currentBranch s, s)"
  using assms by (simp add: getCurrentBranch_def)

theorem getCurrentBranch_empty_keeps_previous_witness:
  "getCurrentBranch (const_gateway None (Some []) count_2_5) example_service
     = Inr (Some ''main'', example_service) \<and>
   getCurrentBranch (const_gateway None None count_2_5) example_service
     = Inr (Some ''main'', example_service)"
proof -
  have a: "cmd_getCurrentBranch (const_gateway None (Some []) count_2_5)
             (getPath example_service) = Inr (Some [])"
    by (simp add: const_gateway_def)
  have b: "cmd_getCurrentBranch (const_gateway None None count_2_5)
             (getPath example_service) = Inr None"
    by (simp add: const_gateway_def)
  have c: "currentBranch example_service = Some ''main''"
    by (simp add: example_service_def)
  show ?thesis
    using getCurrentBranch_empty_keeps_previous[OF a] getCurrentBranch_empty_keeps_previous[OF b]
    by (simp add: truthy_text_def c)
qed

section \<open>setId\<close>

text \<open>
  C6 as stated fails: \<open>setId\<close> with a new identity does not discard the published
  branches nor the current branch name. With identity 1, one published branch and current
  branch \<open>main\<close>, \<open>setId('2')\<close> (\<open>parseInt('2')\<close> is 2) leaves both in place.
\<close>

theorem setId_keeps_branches_counterexample:
  "currentId example_service = Some (Fin 1) \<and>
   currentId (setId (Fin 2) example_service) = Some (Fin 2) \<and>
   current (branches (setId (Fin 2) example_service)) = Some [[''name'' \<mapsto> Str ''main'']] \<and>
   currentBranch (setId (Fin 2) example_service) = Some ''main'' \<and>
   \<not> (current (branches (setId (Fin 2) example_service)) = None \<and>
      currentBranch (setId (Fin 2) example_service) = None)"
  by (simp add: setId_def example_service_def)

text \<open>
  C6, amended. \<open>setId\<close> is one synchronous step that issues no command. Whatever number
  \<open>parseInt(id)\<close> is, \<open>setId\<close> adopts it as the identity and never touches the branches,
  the current branch name or the repository setting. When that number differs from the
  current identity (\<open>!==\<close>), it emits \<open>false\<close> on \<open>loaded\<close>; when it does not differ, the
  service is unchanged. Calling it twice with the same number (not \<open>NaN\<close>) is the same as
  calling it once.
\<close>

theorem setId_effect:
  "currentId (setId newId s) = Some newId \<and>
   branches (setId newId s) = branches s \<and>
   currentBranch (setId newId s) = currentBranch s \<and>
   repositorySetting (setId newId s) = repositorySetting s \<and>
   (strict_neq (currentId s) newId \<longrightarrow>
      loaded (setId newId s) = subject_next False (loaded s) \<and>
      current (loaded (setId newId s)) = False) \<and>
   (\<not> strict_neq (currentId s) newId \<longrightarrow> setId newId s = s) \<and>
   (newId \<noteq> NaN \<longrightarrow> setId newId (setId newId s) = setId newId s)"
proof -
  have same: "\<not> strict_neq (currentId s) newId \<Longrightarrow> currentId s = Some newId"
    by (auto simp: strict_neq_def split: option.splits if_splits)
  have refl: "newId \<noteq> NaN \<Longrightarrow> \<not> strict_neq (Some newId) newId"
    by (simp add: strict_neq_def)
  show ?thesis
    using same refl
    by (auto simp: setId_def Let_def subject_next_def)
qed

theorem setId_effect_witness:
  "current (loaded (setId (Fin 2) example_service)) = False \<and>
   emissions (loaded (setId (Fin 2) example_service)) = [True, False] \<and>
   currentId (setId (Fin 2) example_service) = Some (Fin 2) \<and>
   branches (setId (Fin 2) example_service) = branches example_service \<and>
   currentBranch (setId (Fin 2) example_service) = Some ''main'' \<and>
   setId (Fin 1) example_service = example_service \<and>
   setId (Fin 2) (setId (Fin 2) example_service) = setId (Fin 2) example_service"
proof -
  have a: "strict_neq (currentId example_service) (Fin 2)"
    by (simp add: strict_neq_def example_service_def)
  have b: "\<not> strict_neq (currentId example_service) (Fin 1)"
    by (simp add: strict_neq_def example_service_def)
  have c: "Fin 2 \<noteq> NaN" by simp
  have d: "currentBranch example_service = Some ''main''"
       "emissions (loaded example_service) = [True]"
    by (simp_all add: example_service_def)
  show ?thesis
    using setId_effect[of "Fin 2" example_service] setId_effect[of "Fin 1" example_service] a b c d
    by (simp add: subject_next_def)
qed

section \<open>getBranches on an empty listing\<close>

text \<open>
  C5 as stated fails: when the listing command answers with the empty string,
  \<open>getBranches\<close> resolves; no error reaches its caller.
\<close>

theorem getBranches_empty_listing_counterexample:
  "getBranches (const_gateway (Some []) None count_2_5) example_keys example_service
     = ([GetBranches (Some ''/repo'')], Inr example_service)"
  by (simp add: getBranches_def const_gateway_def truthy_text_def getPath_def example_service_def)

text \<open>
  C5, amended. When the listing command answers with an empty or absent text,
  \<open>getBranches\<close> resolves without an error, issues no further command and leaves the
  service as it was: the published collection is not replaced.
\<close>

theorem getBranches_empty_listing_is_silent:
  assumes "cmd_getBranches gw (getPath s) = Inr raw" and "\<not> truthy_text raw"
  shows "getBranches gw keys s = ([GetBranches (getPath s)], Inr s)"
  using assms by (simp add: getBranches_def)

theorem getBranches_empty_listing_is_silent_witness:
  "getBranches (const_gateway None None count_2_5) example_keys example_service
     = ([GetBranches (Some ''/repo'')], Inr example_service)"
proof -
  have a: "cmd_getBranches (const_gateway None None count_2_5) (getPath example_service) = Inr None"
    by (simp add: const_gateway_def)
  have b: "\<not> truthy_text None" by (simp add: truthy_text_def)
  have c: "getPath example_service = Some ''/repo''"
    by (simp add: getPath_def example_service_def)
  show ?thesis
    using getBranches_empty_listing_is_silent[OF a b, of example_keys] by (simp add: c)
qed

section \<open>The counting loop of getBranches\<close>

lemma assign_counts_fields [simp]:
  "get_prop (assign_counts b x y) ''upstream'' = get_prop b ''upstream''"
  "get_prop (assign_counts b x y) ''name'' = get_prop b ''name''"
  "get_prop (assign_counts b x y) ''ahead'' = Num x"
  "get_prop (assign_counts b x y) ''behind'' = Num y"
  by (simp_all add: assign_counts_def get_prop_def)

lemma count_loop_succeeds:
  assumes "distinct refs" and "\<forall>i \<in> set refs. i < length parsed"
    and "\<forall>i \<in> set refs. counts_answer gw (getPath s) cnt (parsed ! i)"
  shows "count_loop gw s refs parsed =
           (concat (map (\<lambda>i. count_calls (getPath s) (parsed ! i)) refs),
            Inr (map (\<lambda>j. if j \<in> set refs then with_counts cnt (parsed ! j) else parsed ! j)
                     [0 ..< length parsed]))"
  using assms
proof (induction refs arbitrary: parsed)
  case Nil
  then show ?case by (simp add: map_nth)
next
  case (Cons i rest)
  let ?up = "get_prop (parsed ! i) ''upstream''"
  let ?nm = "get_prop (parsed ! i) ''name''"
  let ?parsed' = "parsed[i := assign_counts (parsed ! i) (cnt ?up ?nm) (cnt ?nm ?up)]"
  have i: "i < length parsed" "i \<notin> set rest" "distinct rest"
    using Cons.prems by auto
  have same: "?parsed' ! j = parsed ! j" if "j \<noteq> i" for j
    using that by simp
  have at_i: "?parsed' ! i = with_counts cnt (parsed ! i)"
    using i by (simp add: with_counts_def)
  have rest_same: "?parsed' ! j = parsed ! j" if "j \<in> set rest" for j
    using that i by (intro same) auto
  have ih: "count_loop gw s rest ?parsed' =
           (concat (map (\<lambda>i. count_calls (getPath s) (?parsed' ! i)) rest),
            Inr (map (\<lambda>j. if j \<in> set rest then with_counts cnt (?parsed' ! j) else ?parsed' ! j)
                     [0 ..< length ?parsed']))"
    using Cons.prems i by (intro Cons.IH) (auto simp: rest_same)
  have calls: "map (\<lambda>i. count_calls (getPath s) (?parsed' ! i)) rest
             = map (\<lambda>i. count_calls (getPath s) (parsed ! i)) rest"
    by (rule map_cong) (auto simp: rest_same)
  have pt: "(if j \<in> set rest then with_counts cnt (?parsed' ! j) else ?parsed' ! j)
          = (if j \<in> set (i # rest) then with_counts cnt (parsed ! j) else parsed ! j)" for j
  proof (cases "j = i")
    case True
    then show ?thesis using i at_i by simp
  next
    case False
    then show ?thesis using same[OF False] by simp
  qed
  have res: "map (\<lambda>j. if j \<in> set rest then with_counts cnt (?parsed' ! j) else ?parsed' ! j)
                     [0 ..< length ?parsed']
        = map (\<lambda>j. if j \<in> set (i # rest) then with_counts cnt (parsed ! j) else parsed ! j)
                     [0 ..< length parsed]"
    by (simp only: pt length_list_update)
  have first: "cmd_countRevList gw (getPath s) ?up ?nm = Inr (cnt ?up ?nm)"
    and second: "cmd_countRevList gw (getPath s) ?nm ?up = Inr (cnt ?nm ?up)"
    using Cons.prems(3) by (auto simp: counts_answer_def)
  have head: "count_calls (getPath s) (parsed ! i) =
               [CountRevList (getPath s) ?up ?nm, CountRevList (getPath s) ?nm ?up]"
    by (simp add: count_calls_def)
  have "count_loop gw s (i # rest) parsed =
          (CountRevList (getPath s) ?up ?nm # CountRevList (getPath s) ?nm ?up #
             concat (map (\<lambda>i. count_calls (getPath s) (?parsed' ! i)) rest),
           Inr (map (\<lambda>j. if j \<in> set rest then with_counts cnt (?parsed' ! j) else ?parsed' ! j)
                     [0 ..< length ?parsed']))"
    by (simp add: first second ih Let_def del: upt_Suc)
  then show ?case
    by (simp only: calls res head list.map concat.simps append_Cons append_Nil)
qed

lemma count_loop_stops:
  assumes "distinct refs" and "\<forall>i \<in> set refs. i < length parsed"
    and "\<exists>i \<in> set refs. count_rejects gw (getPath s) (parsed ! i)"
  shows "\<exists>calls e u v.
           count_loop gw s refs parsed = (calls @ [CountRevList (getPath s) u v], Inl e) \<and>
           cmd_countRevList gw (getPath s) u v = Inl e \<and>
           (\<forall>c \<in> set calls. \<exists>u' v' n. c = CountRevList (getPath s) u' v' \<and>
                                 cmd_countRevList gw (getPath s) u' v' = Inr n)"
  using assms
proof (induction refs arbitrary: parsed)
  case Nil
  then show ?case by simp
next
  case (Cons i rest)
  let ?p = "getPath s"
  let ?up = "get_prop (parsed ! i) ''upstream''"
  let ?nm = "get_prop (parsed ! i) ''name''"
  show ?case
  proof (cases "cmd_countRevList gw ?p ?up ?nm")
    case (Inl e)
    then have "count_loop gw s (i # rest) parsed = ([] @ [CountRevList ?p ?up ?nm], Inl e)"
      by (simp add: Let_def)
    with Inl show ?thesis by (intro exI[of _ "[]"] exI[of _ e] exI[of _ ?up] exI[of _ ?nm]) simp
  next
    case first: (Inr ahead)
    show ?thesis
    proof (cases "cmd_countRevList gw ?p ?nm ?up")
      case (Inl e)
      with first have "count_loop gw s (i # rest) parsed =
              ([CountRevList ?p ?up ?nm] @ [CountRevList ?p ?nm ?up], Inl e)"
        by (simp add: Let_def)
      with Inl first show ?thesis
        by (intro exI[of _ "[CountRevList ?p ?up ?nm]"] exI[of _ e] exI[of _ ?nm] exI[of _ ?up])
           simp
    next
      case second: (Inr behind)
      let ?parsed' = "parsed[i := assign_counts (parsed ! i) ahead behind]"
      have i: "i \<notin> set rest" "distinct rest" using Cons.prems by auto
      have rest_same: "?parsed' ! j = parsed ! j" if "j \<in> set rest" for j
      proof -
        from that i have "i \<noteq> j" by auto
        then show ?thesis by simp
      qed
      have "\<not> count_rejects gw ?p (parsed ! i)"
        using first second by (simp add: count_rejects_def)
      with Cons.prems(3) have "\<exists>j \<in> set rest. count_rejects gw ?p (?parsed' ! j)"
        by (auto simp: rest_same)
      moreover have "\<forall>j \<in> set rest. j < length ?parsed'" using Cons.prems(2) by simp
      ultimately obtain calls e u v where
          loop: "count_loop gw s rest ?parsed' = (calls @ [CountRevList ?p u v], Inl e)"
          and last: "cmd_countRevList gw ?p u v = Inl e"
          and before: "\<forall>c \<in> set calls. \<exists>u' v' n. c = CountRevList ?p u' v' \<and>
                                 cmd_countRevList gw ?p u' v' = Inr n"
        using Cons.IH[of ?parsed'] i by blast
      have "count_loop gw s (i # rest) parsed =
              ((CountRevList ?p ?up ?nm # CountRevList ?p ?nm ?up # calls) @ [CountRevList ?p u v],
               Inl e)"
        using first second loop by (simp add: Let_def)
      moreover have "\<forall>c \<in> set (CountRevList ?p ?up ?nm # CountRevList ?p ?nm ?up # calls).
                       \<exists>u' v' n. c = CountRevList ?p u' v' \<and>
                                 cmd_countRevList gw ?p u' v' = Inr n"
        using before first second by auto
      ultimately show ?thesis using last by blast
    qed
  qed
qed

lemma map_filter_nth:
  "map (\<lambda>i. f (xs ! i)) (filter (\<lambda>i. P (xs ! i)) [0 ..< length xs]) = map f (filter P xs)"
proof -
  have "map f (filter P xs) = map f (filter P (map (\<lambda>i. xs ! i) [0 ..< length xs]))"
    by (simp add: map_nth)
  also have "\<dots> = map (\<lambda>i. f (xs ! i)) (filter (\<lambda>i. P (xs ! i)) [0 ..< length xs])"
    by (simp add: filter_map o_def)
  finally show ?thesis by simp
qed

lemma map_index_nth:
  "map (\<lambda>j. g (xs ! j)) [0 ..< length xs] = map g xs"
proof -
  have "map g xs = map g (map (\<lambda>i. xs ! i) [0 ..< length xs])" by (simp add: map_nth)
  then show ?thesis by (simp add: o_def)
qed

lemma upstreamBranches_props:
  "distinct (upstreamBranches parsed)"
  "\<forall>i \<in> set (upstreamBranches parsed). i < length parsed"
  "i \<in> set (upstreamBranches parsed) \<longleftrightarrow>
     i < length parsed \<and> truthy (get_prop (parsed ! i) ''upstream'')"
  by (auto simp: upstreamBranches_def)

lemma getBranches_resolves:
  assumes listing: "cmd_getBranches gw (getPath s) = Inr (Some raw)" and raw: "raw \<noteq> []"
    and answers: "\<forall>b \<in> set (remove_upstream (parse_entries keys raw)).
            truthy (get_prop b ''upstream'') \<longrightarrow> counts_answer gw (getPath s) cnt b"
  shows "getBranches gw keys s =
           (GetBranches (getPath s) #
              concat (map (count_calls (getPath s))
                        (filter (\<lambda>b. truthy (get_prop b ''upstream''))
                                (remove_upstream (parse_entries keys raw)))),
            Inr (s\<lparr>branches :=
                    subject_next
                      (Some (map (\<lambda>b. if truthy (get_prop b ''upstream'')
                                       then with_counts cnt b else b)
                                 (remove_upstream (parse_entries keys raw))))
                      (branches s)\<rparr>))"
proof -
  let ?D = "remove_upstream (parse_entries keys raw)"
  let ?P = "\<lambda>b. truthy (get_prop b ''upstream'')"
  have ans: "\<forall>i \<in> set (upstreamBranches ?D). counts_answer gw (getPath s) cnt (?D ! i)"
    using answers by (auto simp: upstreamBranches_props(3))
  have loop: "count_loop gw s (upstreamBranches ?D) ?D =
           (concat (map (\<lambda>i. count_calls (getPath s) (?D ! i)) (upstreamBranches ?D)),
            Inr (map (\<lambda>j. if j \<in> set (upstreamBranches ?D) then with_counts cnt (?D ! j) else ?D ! j)
                     [0 ..< length ?D]))"
    by (rule count_loop_succeeds[OF upstreamBranches_props(1) upstreamBranches_props(2) ans])
  have calls: "map (\<lambda>i. count_calls (getPath s) (?D ! i)) (upstreamBranches ?D)
             = map (count_calls (getPath s)) (filter ?P ?D)"
    unfolding upstreamBranches_def by (rule map_filter_nth)
  have "map (\<lambda>j. if j \<in> set (upstreamBranches ?D) then with_counts cnt (?D ! j) else ?D ! j)
            [0 ..< length ?D]
      = map (\<lambda>j. (\<lambda>b. if ?P b then with_counts cnt b else b) (?D ! j)) [0 ..< length ?D]"
    by (rule map_cong) (auto simp: upstreamBranches_props(3))
  also have "\<dots> = map (\<lambda>b. if ?P b then with_counts cnt b else b) ?D"
    by (rule map_index_nth)
  finally have res: "map (\<lambda>j. if j \<in> set (upstreamBranches ?D) then with_counts cnt (?D ! j) else ?D ! j)
            [0 ..< length ?D] = map (\<lambda>b. if ?P b then with_counts cnt b else b) ?D" .
  show ?thesis
    unfolding getBranches_def
    by (simp add: listing raw truthy_text_def parseBranches_nonempty loop calls res)
qed

lemma getBranches_stops:
  assumes listing: "cmd_getBranches gw (getPath s) = Inr (Some raw)" and raw: "raw \<noteq> []"
    and fails: "\<exists>b \<in> set (remove_upstream (parse_entries keys raw)).
            truthy (get_prop b ''upstream'') \<and> count_rejects gw (getPath s) b"
  shows "\<exists>calls e u v.
           getBranches gw keys s =
             (GetBranches (getPath s) # calls @ [CountRevList (getPath s) u v], Inl e) \<and>
           cmd_countRevList gw (getPath s) u v = Inl e \<and>
           (\<forall>c \<in> set calls. \<exists>u' v' n. c = CountRevList (getPath s) u' v' \<and>
                                 cmd_countRevList gw (getPath s) u' v' = Inr n)"
proof -
  let ?D = "remove_upstream (parse_entries keys raw)"
  from fails obtain b where b: "b \<in> set ?D" "truthy (get_prop b ''upstream'')"
      "count_rejects gw (getPath s) b" by blast
  then obtain i where i: "i < length ?D" "?D ! i = b" by (auto simp: in_set_conv_nth)
  with b have "i \<in> set (upstreamBranches ?D)" by (simp add: upstreamBranches_props(3))
  with i b have "\<exists>i \<in> set (upstreamBranches ?D). count_rejects gw (getPath s) (?D ! i)"
    by blast
  from count_loop_stops[OF upstreamBranches_props(1) upstreamBranches_props(2) this]
  obtain calls e u v where
      loop: "count_loop gw s (upstreamBranches ?D) ?D = (calls @ [CountRevList (getPath s) u v], Inl e)"
      and rest: "cmd_countRevList gw (getPath s) u v = Inl e"
         "\<forall>c \<in> set calls. \<exists>u' v' n. c = CountRevList (getPath s) u' v' \<and>
                                 cmd_countRevList gw (getPath s) u' v' = Inr n"
    by blast
  have "getBranches gw keys s =
          (GetBranches (getPath s) # calls @ [CountRevList (getPath s) u v], Inl e)"
    unfolding getBranches_def
    by (simp add: listing raw truthy_text_def parseBranches_nonempty loop)
  with rest show ?thesis by blast
qed

lemma parse_entries_defaults:
  "\<forall>r \<in> set (parse_entries keys raw). get_prop r ''ahead'' = Num 0 \<and> get_prop r ''behind'' = Num 0"
  by (auto simp: parse_entries_def parse_record_def get_prop_def)

lemma remove_upstream_subset: "set (remove_upstream entries) \<subseteq> set entries"
  by (auto simp: remove_upstream_def)

lemma dedup_text:
  "b \<in> set (remove_upstream (parse_entries keys raw)) \<Longrightarrow>
   truthy (get_prop b ''upstream'') = non_empty (get_prop b ''upstream'')"
  using remove_upstream_subset[of "parse_entries keys raw"] parse_entries_text[of keys raw]
  by (intro truthy_text_field) auto

lemma get_prop_upd: "get_prop (b(k \<mapsto> v)) k' = (if k' = k then v else get_prop b k')"
  by (simp add: get_prop_def)

lemma spec_divergence_with_counts:
  "truthy (get_prop b ''upstream'') = non_empty (get_prop b ''upstream'') \<Longrightarrow>
   (if truthy (get_prop b ''upstream'') then with_counts cnt b else b) = spec_divergence cnt b"
  by (simp add: spec_divergence_def with_counts_def assign_counts_def)

section \<open>Divergence (getBranches, lines 104 to 112)\<close>

text \<open>
  C2. Let the listing command answer with a non-empty text and let both counts answer for
  every branch of the deduplicated collection that has a non-empty upstream. Then
  \<open>getBranches\<close> issues, after the listing, exactly the two counting calls of each such
  branch, in order, and no other command; it publishes the deduplicated collection in which
  each such branch has \<open>ahead = countReachable(upstream, name)\<close> and
  \<open>behind = countReachable(name, upstream)\<close>; every branch with an empty upstream is
  published as parsed, with \<open>ahead = 0\<close> and \<open>behind = 0\<close>.
\<close>

theorem getBranches_divergence:
  assumes "cmd_getBranches gw (getPath s) = Inr (Some raw)" and "raw \<noteq> []"
    and "\<forall>b \<in> set (remove_upstream (parse_entries keys raw)).
            non_empty (get_prop b ''upstream'') \<longrightarrow>
            counts_answer gw (getPath s) countReachable b"
  shows "getBranches gw keys s =
           (GetBranches (getPath s) #
              concat (map (count_calls (getPath s))
                        (filter (\<lambda>b. non_empty (get_prop b ''upstream''))
                                (remove_upstream (parse_entries keys raw)))),
            Inr (s\<lparr>branches :=
                    subject_next
                      (Some (map (spec_divergence countReachable)
                                 (remove_upstream (parse_entries keys raw))))
                      (branches s)\<rparr>)) \<and>
         (\<forall>b \<in> set (remove_upstream (parse_entries keys raw)).
            \<not> non_empty (get_prop b ''upstream'') \<longrightarrow>
            spec_divergence countReachable b = b \<and>
            get_prop b ''ahead'' = Num 0 \<and> get_prop b ''behind'' = Num 0)"
proof -
  let ?D = "remove_upstream (parse_entries keys raw)"
  have answers: "\<forall>b \<in> set ?D. truthy (get_prop b ''upstream'') \<longrightarrow>
                   counts_answer gw (getPath s) countReachable b"
    using assms(3) by (simp add: dedup_text)
  have f: "filter (\<lambda>b. truthy (get_prop b ''upstream'')) ?D
         = filter (\<lambda>b. non_empty (get_prop b ''upstream'')) ?D"
    by (rule filter_cong) (simp_all add: dedup_text)
  have m: "map (\<lambda>b. if truthy (get_prop b ''upstream'') then with_counts countReachable b else b) ?D
         = map (spec_divergence countReachable) ?D"
    by (rule map_cong[OF refl]) (rule spec_divergence_with_counts, rule dedup_text)
  have run: "getBranches gw keys s =
           (GetBranches (getPath s) #
              concat (map (count_calls (getPath s))
                        (filter (\<lambda>b. non_empty (get_prop b ''upstream'')) ?D)),
            Inr (s\<lparr>branches :=
                    subject_next (Some (map (spec_divergence countReachable) ?D)) (branches s)\<rparr>))"
    using getBranches_resolves[OF assms(1) assms(2) answers] by (simp only: f m)
  have defaults: "\<forall>b \<in> set ?D. get_prop b ''ahead'' = Num 0 \<and> get_prop b ''behind'' = Num 0"
    using remove_upstream_subset[of "parse_entries keys raw"] parse_entries_defaults[of keys raw]
    by auto
  show ?thesis
    using run defaults by (simp add: spec_divergence_def)
qed

lemma example_path: "getPath example_service = Some ''/repo''"
  by (simp add: getPath_def example_service_def)

lemma parse_listing_two:
  "parse_entries example_keys listing_two =
     [parse_record example_keys ''feature%x00origin/feature'',
      parse_record example_keys ''topic%x00origin/topic'']"
  by (simp add: parse_entries_def listing_two_def split_js_def)

lemma parse_record_feature:
  "get_prop (parse_record example_keys ''feature%x00origin/feature'') ''name'' = Str ''feature''"
  "get_prop (parse_record example_keys ''feature%x00origin/feature'') ''upstream'' = Str ''origin/feature''"
  by (simp_all add: parse_record_def example_keys_def assign_fields_def split_js_def nth_js_def get_prop_def)

lemma parse_record_topic:
  "get_prop (parse_record example_keys ''topic%x00origin/topic'') ''name'' = Str ''topic''"
  "get_prop (parse_record example_keys ''topic%x00origin/topic'') ''upstream'' = Str ''origin/topic''"
  by (simp_all add: parse_record_def example_keys_def assign_fields_def split_js_def nth_js_def get_prop_def)

lemma dedup_listing_two:
  "remove_upstream (parse_entries example_keys listing_two) =
     [parse_record example_keys ''feature%x00origin/feature'',
      parse_record example_keys ''topic%x00origin/topic'']"
  by (simp add: parse_listing_two remove_upstream_def withUpstreamBranch_def includes_js_def
        parse_record_feature parse_record_topic)

theorem getBranches_divergence_witness:
  "fst (getBranches (const_gateway (Some listing_two) None count_2_5) example_keys example_service)
     = [GetBranches (Some ''/repo''),
        CountRevList (Some ''/repo'') (Str ''origin/feature'') (Str ''feature''),
        CountRevList (Some ''/repo'') (Str ''feature'') (Str ''origin/feature''),
        CountRevList (Some ''/repo'') (Str ''origin/topic'') (Str ''topic''),
        CountRevList (Some ''/repo'') (Str ''topic'') (Str ''origin/topic'')] \<and>
   snd (getBranches (const_gateway (Some listing_two) None count_2_5) example_keys example_service)
     = Inr (example_service\<lparr>branches :=
              subject_next
                (Some [spec_divergence count_2_5_value
                         (parse_record example_keys ''feature%x00origin/feature''),
                       spec_divergence count_2_5_value
                         (parse_record example_keys ''topic%x00origin/topic'')])
                (branches example_service)\<rparr>) \<and>
   get_prop (spec_divergence count_2_5_value
               (parse_record example_keys ''feature%x00origin/feature'')) ''ahead'' = Num 2 \<and>
   get_prop (spec_divergence count_2_5_value
               (parse_record example_keys ''feature%x00origin/feature'')) ''behind'' = Num 5"
proof -
  let ?gw = "const_gateway (Some listing_two) None count_2_5"
  have a: "cmd_getBranches ?gw (getPath example_service) = Inr (Some listing_two)"
    by (simp add: const_gateway_def)
  have b: "listing_two \<noteq> []" by (simp add: listing_two_def)
  have c: "\<forall>b \<in> set (remove_upstream (parse_entries example_keys listing_two)).
            non_empty (get_prop b ''upstream'') \<longrightarrow>
            counts_answer ?gw (getPath example_service) count_2_5_value b"
    by (simp add: counts_answer_def const_gateway_def count_2_5_def)
  have ne: "non_empty (Str ''origin/feature'')" "non_empty (Str ''origin/topic'')"
    by (simp_all add: non_empty_def)
  have vals: "get_prop (spec_divergence count_2_5_value
               (parse_record example_keys ''feature%x00origin/feature'')) ''ahead'' = Num 2"
     "get_prop (spec_divergence count_2_5_value
               (parse_record example_keys ''feature%x00origin/feature'')) ''behind'' = Num 5"
    by (simp_all add: spec_divergence_def parse_record_feature ne count_2_5_value_def get_prop_upd)
  show ?thesis
    using getBranches_divergence[OF a b c, THEN conjunct1] vals
    by (simp add: dedup_listing_two example_path count_calls_def parse_record_feature
          parse_record_topic ne)
qed

lemma with_counts_fields:
  "get_prop (with_counts cnt b) ''name'' = get_prop b ''name''"
  "get_prop (with_counts cnt b) ''upstream'' = get_prop b ''upstream''"
  "get_prop (with_counts cnt b) ''ahead'' = Num (cnt (get_prop b ''upstream'') (get_prop b ''name''))"
  "get_prop (with_counts cnt b) ''behind'' = Num (cnt (get_prop b ''name'') (get_prop b ''upstream''))"
  by (simp_all add: with_counts_def)

lemma parse_listing_feature:
  "remove_upstream (parse_entries example_keys listing_feature) =
     [parse_record example_keys ''feature%x00origin/feature'']"
  by (simp add: parse_entries_def listing_feature_def split_js_def remove_upstream_def
        withUpstreamBranch_def includes_js_def parse_record_feature)

text \<open>
  C7 as stated fails. The listing holds the one branch \<open>feature\<close> with upstream
  \<open>origin/feature\<close>; the count of \<open>(origin/feature, feature)\<close> answers 2 and the count of
  \<open>(feature, origin/feature)\<close> answers 5. The published branch has \<open>ahead = 2\<close> and
  \<open>behind = 5\<close>, not \<open>ahead = 5\<close> and \<open>behind = 2\<close>.
\<close>

theorem getBranches_feature_counterexample:
  "cmd_countRevList (const_gateway (Some listing_feature) None count_2_5) (Some ''/repo'')
      (Str ''origin/feature'') (Str ''feature'') = Inr 2 \<and>
   cmd_countRevList (const_gateway (Some listing_feature) None count_2_5) (Some ''/repo'')
      (Str ''feature'') (Str ''origin/feature'') = Inr 5 \<and>
   snd (getBranches (const_gateway (Some listing_feature) None count_2_5) example_keys
          example_service)
     = Inr (example_service\<lparr>branches :=
              subject_next
                (Some [with_counts count_2_5_value
                         (parse_record example_keys ''feature%x00origin/feature'')])
                (branches example_service)\<rparr>) \<and>
   get_prop (with_counts count_2_5_value
               (parse_record example_keys ''feature%x00origin/feature'')) ''name''
     = Str ''feature'' \<and>
   get_prop (with_counts count_2_5_value
               (parse_record example_keys ''feature%x00origin/feature'')) ''upstream''
     = Str ''origin/feature'' \<and>
   get_prop (with_counts count_2_5_value
               (parse_record example_keys ''feature%x00origin/feature'')) ''ahead'' = Num 2 \<and>
   get_prop (with_counts count_2_5_value
               (parse_record example_keys ''feature%x00origin/feature'')) ''behind'' = Num 5 \<and>
   \<not> (get_prop (with_counts count_2_5_value
               (parse_record example_keys ''feature%x00origin/feature'')) ''ahead'' = Num 5 \<and>
      get_prop (with_counts count_2_5_value
               (parse_record example_keys ''feature%x00origin/feature'')) ''behind'' = Num 2)"
proof -
  let ?gw = "const_gateway (Some listing_feature) None count_2_5"
  have a: "cmd_getBranches ?gw (getPath example_service) = Inr (Some listing_feature)"
    by (simp add: const_gateway_def)
  have b: "listing_feature \<noteq> []" by (simp add: listing_feature_def)
  have c: "\<forall>b \<in> set (remove_upstream (parse_entries example_keys listing_feature)).
            truthy (get_prop b ''upstream'') \<longrightarrow>
            counts_answer ?gw (getPath example_service) count_2_5_value b"
    by (simp add: counts_answer_def const_gateway_def count_2_5_def)
  have run: "snd (getBranches ?gw example_keys example_service)
     = Inr (example_service\<lparr>branches :=
              subject_next
                (Some [with_counts count_2_5_value
                         (parse_record example_keys ''feature%x00origin/feature'')])
                (branches example_service)\<rparr>)"
    using getBranches_resolves[OF a b c]
    by (simp add: parse_listing_feature parse_record_feature)
  show ?thesis
    using run
    by (simp add: with_counts_fields parse_record_feature count_2_5_value_def
          const_gateway_def count_2_5_def)
qed

text \<open>
  C7, amended. For a branch \<open>feature\<close> with upstream \<open>origin/feature\<close> in the deduplicated
  collection, if the count of \<open>(origin/feature, feature)\<close> answers 2 and the count of
  \<open>(feature, origin/feature)\<close> answers 5 (and the counts of the other tracked branches
  answer too), then the published branch at the same position has \<open>ahead = 2\<close> and
  \<open>behind = 5\<close>: \<open>ahead\<close> is the first call's answer.
\<close>

theorem getBranches_feature_ahead_behind:
  assumes "cmd_getBranches gw (getPath s) = Inr (Some raw)" and "raw \<noteq> []"
    and "\<forall>b \<in> set (remove_upstream (parse_entries keys raw)).
            non_empty (get_prop b ''upstream'') \<longrightarrow> counts_answer gw (getPath s) cnt b"
    and "i < length (remove_upstream (parse_entries keys raw))"
    and "get_prop (remove_upstream (parse_entries keys raw) ! i) ''name'' = Str ''feature''"
    and "get_prop (remove_upstream (parse_entries keys raw) ! i) ''upstream''
           = Str ''origin/feature''"
    and "cmd_countRevList gw (getPath s) (Str ''origin/feature'') (Str ''feature'') = Inr 2"
    and "cmd_countRevList gw (getPath s) (Str ''feature'') (Str ''origin/feature'') = Inr 5"
  shows "\<exists>calls resolved.
           getBranches gw keys s =
             (calls, Inr (s\<lparr>branches := subject_next (Some resolved) (branches s)\<rparr>)) \<and>
           length resolved = length (remove_upstream (parse_entries keys raw)) \<and>
           get_prop (resolved ! i) ''name'' = Str ''feature'' \<and>
           get_prop (resolved ! i) ''upstream'' = Str ''origin/feature'' \<and>
           get_prop (resolved ! i) ''ahead'' = Num 2 \<and>
           get_prop (resolved ! i) ''behind'' = Num 5"
proof -
  let ?D = "remove_upstream (parse_entries keys raw)"
  let ?resolved = "map (\<lambda>b. if truthy (get_prop b ''upstream'') then with_counts cnt b else b) ?D"
  have answers: "\<forall>b \<in> set ?D. truthy (get_prop b ''upstream'') \<longrightarrow>
                   counts_answer gw (getPath s) cnt b"
    using assms(3) by (simp add: dedup_text)
  have "counts_answer gw (getPath s) cnt (?D ! i)"
    using answers assms(4) assms(6) by (simp add: nth_mem)
  then have cnt: "cnt (Str ''origin/feature'') (Str ''feature'') = 2"
                 "cnt (Str ''feature'') (Str ''origin/feature'') = 5"
    using assms(5-8) by (simp_all add: counts_answer_def)
  have at_i: "?resolved ! i = with_counts cnt (?D ! i)"
    using assms(4) assms(6) by simp
  have "getBranches gw keys s =
          (GetBranches (getPath s) #
             concat (map (count_calls (getPath s))
                       (filter (\<lambda>b. truthy (get_prop b ''upstream'')) ?D)),
           Inr (s\<lparr>branches := subject_next (Some ?resolved) (branches s)\<rparr>))"
    by (rule getBranches_resolves[OF assms(1) assms(2) answers])
  moreover have "length ?resolved = length ?D" by simp
  moreover have "get_prop (?resolved ! i) ''name'' = Str ''feature''"
      "get_prop (?resolved ! i) ''upstream'' = Str ''origin/feature''"
      "get_prop (?resolved ! i) ''ahead'' = Num 2"
      "get_prop (?resolved ! i) ''behind'' = Num 5"
    unfolding at_i by (simp_all add: with_counts_fields assms(5) assms(6) cnt)
  ultimately show ?thesis by blast
qed

theorem getBranches_feature_ahead_behind_witness:
  "\<exists>calls resolved.
     getBranches (const_gateway (Some listing_two) None count_2_5) example_keys example_service =
       (calls, Inr (example_service\<lparr>branches :=
                      subject_next (Some resolved) (branches example_service)\<rparr>)) \<and>
     length resolved = length (remove_upstream (parse_entries example_keys listing_two)) \<and>
     get_prop (resolved ! 0) ''name'' = Str ''feature'' \<and>
     get_prop (resolved ! 0) ''upstream'' = Str ''origin/feature'' \<and>
     get_prop (resolved ! 0) ''ahead'' = Num 2 \<and>
     get_prop (resolved ! 0) ''behind'' = Num 5"
proof -
  let ?gw = "const_gateway (Some listing_two) None count_2_5"
  have a: "cmd_getBranches ?gw (getPath example_service) = Inr (Some listing_two)"
    by (simp add: const_gateway_def)
  have b: "listing_two \<noteq> []" by (simp add: listing_two_def)
  have c: "\<forall>b \<in> set (remove_upstream (parse_entries example_keys listing_two)).
            non_empty (get_prop b ''upstream'') \<longrightarrow>
            counts_answer ?gw (getPath example_service) count_2_5_value b"
    by (simp add: counts_answer_def const_gateway_def count_2_5_def)
  have d: "0 < length (remove_upstream (parse_entries example_keys listing_two))"
    by (simp add: dedup_listing_two)
  have e: "get_prop (remove_upstream (parse_entries example_keys listing_two) ! 0) ''name''
             = Str ''feature''"
    by (simp add: dedup_listing_two parse_record_feature)
  have f: "get_prop (remove_upstream (parse_entries example_keys listing_two) ! 0) ''upstream''
             = Str ''origin/feature''"
    by (simp add: dedup_listing_two parse_record_feature)
  have g: "cmd_countRevList ?gw (getPath example_service) (Str ''origin/feature'')
             (Str ''feature'') = Inr 2"
    by (simp add: const_gateway_def count_2_5_def count_2_5_value_def)
  have h: "cmd_countRevList ?gw (getPath example_service) (Str ''feature'')
             (Str ''origin/feature'') = Inr 5"
    by (simp add: const_gateway_def count_2_5_def count_2_5_value_def)
  show ?thesis
    by (rule getBranches_feature_ahead_behind[OF a b c d e f g h])
qed

section \<open>A counting call that rejects\<close>

text \<open>
  C4 as stated fails. The listing holds two tracked branches, \<open>feature\<close> and \<open>topic\<close>, and
  the count for \<open>feature\<close> rejects. \<open>getBranches\<close> rejects with that error after the first
  counting call: \<open>topic\<close> is never counted and nothing is published.
\<close>

theorem getBranches_count_failure_counterexample:
  "getBranches (const_gateway (Some listing_two) None count_failing) example_keys example_service
     = ([GetBranches (Some ''/repo''),
         CountRevList (Some ''/repo'') (Str ''origin/feature'') (Str ''feature'')],
        Inl (Error ''rev-list failed''))"
proof -
  have ne: "listing_two \<noteq> []" by (simp add: listing_two_def)
  show ?thesis
    by (simp add: getBranches_def const_gateway_def truthy_text_def parseBranches_nonempty ne
          dedup_listing_two upstreamBranches_def example_path
          parse_record_feature parse_record_topic count_failing_def Let_def)
qed

text \<open>
  C4, amended. During one refresh, when a counting call of some branch with a non-empty
  upstream rejects, the whole of \<open>getBranches\<close> rejects: every counting call issued
  before answered, the last call issued is one that rejects, its error is thrown to the
  caller, and no collection is published.
\<close>

theorem getBranches_count_failure_rejects:
  assumes "cmd_getBranches gw (getPath s) = Inr (Some raw)" and "raw \<noteq> []"
    and "\<exists>b \<in> set (remove_upstream (parse_entries keys raw)).
            non_empty (get_prop b ''upstream'') \<and> count_rejects gw (getPath s) b"
  shows "\<exists>calls e u v.
           getBranches gw keys s =
             (GetBranches (getPath s) # calls @ [CountRevList (getPath s) u v], Inl e) \<and>
           cmd_countRevList gw (getPath s) u v = Inl e \<and>
           (\<forall>c \<in> set calls. \<exists>u' v' n. c = CountRevList (getPath s) u' v' \<and>
                                 cmd_countRevList gw (getPath s) u' v' = Inr n)"
proof -
  have "\<exists>b \<in> set (remove_upstream (parse_entries keys raw)).
            truthy (get_prop b ''upstream'') \<and> count_rejects gw (getPath s) b"
    using assms(3) by (auto simp: dedup_text)
  then show ?thesis by (rule getBranches_stops[OF assms(1) assms(2)])
qed

theorem getBranches_count_failure_rejects_witness:
  "\<exists>calls e u v.
     getBranches (const_gateway (Some listing_two) None count_failing) example_keys example_service
       = (GetBranches (getPath example_service) # calls @
            [CountRevList (getPath example_service) u v], Inl e) \<and>
     cmd_countRevList (const_gateway (Some listing_two) None count_failing)
       (getPath example_service) u v = Inl e \<and>
     (\<forall>c \<in> set calls. \<exists>u' v' n. c = CountRevList (getPath example_service) u' v' \<and>
        cmd_countRevList (const_gateway (Some listing_two) None count_failing)
          (getPath example_service) u' v' = Inr n)"
proof -
  let ?gw = "const_gateway (Some listing_two) None count_failing"
  have a: "cmd_getBranches ?gw (getPath example_service) = Inr (Some listing_two)"
    by (simp add: const_gateway_def)
  have b: "listing_two \<noteq> []" by (simp add: listing_two_def)
  have c: "\<exists>b \<in> set (remove_upstream (parse_entries example_keys listing_two)).
            non_empty (get_prop b ''upstream'') \<and> count_rejects ?gw (getPath example_service) b"
    by (simp add: dedup_listing_two parse_record_feature non_empty_def count_rejects_def
          const_gateway_def count_failing_def)
  show ?thesis by (rule getBranches_count_failure_rejects[OF a b c])
qed

section \<open>A refresh in flight and setId\<close>

text \<open>
  Nothing a resumed refresh reads or writes is touched by \<open>setId\<close>: resuming in two
  services that differ in \<open>currentId\<close> and \<open>loaded\<close> only gives the same task, the same
  commands and services that again differ in these two fields only.
\<close>

lemma published_alike_refl: "published_alike s s"
  by (simp add: published_alike_def)

lemma published_alike_getPath: "published_alike s s' \<Longrightarrow> getPath s = getPath s'"
  by (simp add: published_alike_def getPath_def)

lemma published_alike_setId: "published_alike s s' \<Longrightarrow> published_alike (setId newId s) s'"
  by (simp add: published_alike_def setId_def Let_def)

lemma enter_loop_alike:
  assumes "published_alike s s'"
  shows "fst (enter_loop parsed refs s) = fst (enter_loop parsed refs s') \<and>
         published_alike (fst (snd (enter_loop parsed refs s))) (fst (snd (enter_loop parsed refs s'))) \<and>
         snd (snd (enter_loop parsed refs s)) = snd (snd (enter_loop parsed refs s'))"
  using assms published_alike_getPath[OF assms]
  by (cases refs) (simp_all add: published_alike_def)

lemma resume_alike:
  assumes "published_alike s s'"
  shows "fst (resume keys t r s) = fst (resume keys t r s') \<and>
         published_alike (fst (snd (resume keys t r s))) (fst (snd (resume keys t r s'))) \<and>
         snd (snd (resume keys t r s)) = snd (snd (resume keys t r s'))"
proof (cases "(keys, t, r, s)" rule: resume.cases)
  case (2 keys' raw s0)
  then show ?thesis
    using assms enter_loop_alike[OF assms]
    by (auto split: sum.splits)
next
  case (6 keys' parsedBranches i rest ahead behind s0)
  then show ?thesis using enter_loop_alike[OF assms] by simp
qed (use assms published_alike_getPath[OF assms] in auto)

lemma step_alike:
  assumes "published_alike s s'"
  shows "fst (step keys (Reply r) (t, s)) = fst (step keys (Reply r) (t, s')) \<and>
         published_alike (snd (step keys (Reply r) (t, s))) (snd (step keys (Reply r) (t, s')))"
  using resume_alike[OF assms, of keys t r]
  by (simp add: split_beta)

lemma run_events_alike:
  "published_alike s s' \<Longrightarrow>
   fst (run_events keys evs (t, s)) = fst (run_events keys (filter is_reply evs) (t, s')) \<and>
   published_alike (snd (run_events keys evs (t, s)))
                   (snd (run_events keys (filter is_reply evs) (t, s')))"
proof (induction evs arbitrary: t s s')
  case Nil
  then show ?case by (simp add: run_events_def)
next
  case (Cons ev evs)
  show ?case
  proof (cases ev)
    case (Reply r)
    obtain t1 s1 where a: "step keys (Reply r) (t, s) = (t1, s1)" by (cases "step keys (Reply r) (t, s)")
    obtain t2 s2 where b: "step keys (Reply r) (t, s') = (t2, s2)" by (cases "step keys (Reply r) (t, s')")
    from step_alike[OF Cons.prems, of keys r t] a b
    have "t1 = t2" "published_alike s1 s2" by simp_all
    with Cons.IH[of s1 s2 t1] show ?thesis
      using Reply a b by (simp add: run_events_def)
  next
    case (SetId newId)
    from Cons.IH[OF published_alike_setId[OF Cons.prems, of newId], of t]
    show ?thesis using SetId by (simp add: run_events_def)
  qed
qed

text \<open>Removing the \<open>setId\<close> calls from any interleaving changes neither how the refresh ends
  nor what it publishes.\<close>

lemma setId_does_not_stop_refresh:
  "fst (run_events keys evs (t, s)) = fst (run_events keys (filter is_reply evs) (t, s)) \<and>
   published_alike (snd (run_events keys evs (t, s)))
                   (snd (run_events keys (filter is_reply evs) (t, s))) \<and>
   branches (snd (run_events keys evs (t, s)))
     = branches (snd (run_events keys (filter is_reply evs) (t, s)))"
  using run_events_alike[OF published_alike_refl, of keys evs t s]
  by (simp add: published_alike_def)


text \<open>
  The task answered by the gateway, with no other call in between, ends as the sequential
  reading \<open>getBranches\<close> does.
\<close>

lemma run_events_Cons:
  "run_events keys (ev # evs) ts = run_events keys evs (step keys ev ts)"
  by (simp add: run_events_def)

lemma run_events_Nil: "run_events keys [] ts = ts"
  by (simp add: run_events_def)

lemma run_loop_replies:
  "run_events keys (map Reply (loop_replies gw s refs parsed))
     (fst (enter_loop parsed refs s), fst (snd (enter_loop parsed refs s)))
   = (case snd (count_loop gw s refs parsed) of
        Inl e \<Rightarrow> (Rejected e, s)
      | Inr resolved \<Rightarrow>
          (Resolved, s\<lparr>branches := subject_next (Some resolved) (branches s)\<rparr>))"
proof (induction refs arbitrary: parsed)
  case Nil
  then show ?case by (simp add: run_events_Nil)
next
  case (Cons i rest)
  let ?up = "get_prop (parsed ! i) ''upstream''"
  let ?nm = "get_prop (parsed ! i) ''name''"
  show ?case
  proof (cases "cmd_countRevList gw (getPath s) ?up ?nm")
    case (Inl e)
    then show ?thesis by (simp add: Let_def run_events_Cons run_events_Nil)
  next
    case first: (Inr ahead)
    show ?thesis
    proof (cases "cmd_countRevList gw (getPath s) ?nm ?up")
      case (Inl e)
      with first show ?thesis by (simp add: Let_def run_events_Cons run_events_Nil)
    next
      case second: (Inr behind)
      let ?parsed' = "parsed[i := assign_counts (parsed ! i) ahead behind]"
      have "run_events keys (map Reply (loop_replies gw s (i # rest) parsed))
              (fst (enter_loop parsed (i # rest) s), fst (snd (enter_loop parsed (i # rest) s)))
          = run_events keys (map Reply (loop_replies gw s rest ?parsed'))
              (fst (enter_loop ?parsed' rest s), fst (snd (enter_loop ?parsed' rest s)))"
        using first second by (simp add: Let_def run_events_Cons split_beta)
      also have "\<dots> = (case snd (count_loop gw s rest ?parsed') of
                          Inl e \<Rightarrow> (Rejected e, s)
                        | Inr resolved \<Rightarrow>
                            (Resolved, s\<lparr>branches := subject_next (Some resolved) (branches s)\<rparr>))"
        by (rule Cons.IH)
      also have "\<dots> = (case snd (count_loop gw s (i # rest) parsed) of
                          Inl e \<Rightarrow> (Rejected e, s)
                        | Inr resolved \<Rightarrow>
                            (Resolved, s\<lparr>branches := subject_next (Some resolved) (branches s)\<rparr>))"
        using first second by (simp add: Let_def split_beta)
      finally show ?thesis .
    qed
  qed
qed

lemma run_gateway_replies:
  "run_events keys (map Reply (gateway_replies gw keys s)) (AwaitBranches, s)
   = (case snd (getBranches gw keys s) of
        Inl e \<Rightarrow> (Rejected e, s)
      | Inr s' \<Rightarrow> (Resolved, s'))"
proof (cases "cmd_getBranches gw (getPath s)")
  case (Inl e)
  then show ?thesis
    by (simp add: gateway_replies_def getBranches_def run_events_Cons run_events_Nil)
next
  case (Inr raw)
  show ?thesis
  proof (cases "truthy_text raw")
    case False
    with Inr show ?thesis
      by (simp add: gateway_replies_def getBranches_def run_events_Cons run_events_Nil)
  next
    case True
    show ?thesis
    proof (cases "parseBranches keys raw")
      case (Inl e)
      with Inr True show ?thesis
        by (simp add: gateway_replies_def getBranches_def run_events_Cons run_events_Nil)
    next
      case parsed: (Inr parsedBranches)
      have "run_events keys (map Reply (gateway_replies gw keys s)) (AwaitBranches, s)
          = run_events keys
              (map Reply (loop_replies gw s (upstreamBranches parsedBranches) parsedBranches))
              (fst (enter_loop parsedBranches (upstreamBranches parsedBranches) s),
               fst (snd (enter_loop parsedBranches (upstreamBranches parsedBranches) s)))"
        using Inr True parsed
        by (simp add: gateway_replies_def run_events_Cons split_beta)
      also note run_loop_replies
      finally show ?thesis
        using Inr True parsed
        by (simp add: getBranches_def split_beta split: sum.splits)
    qed
  qed
qed


lemma feature_refresh:
  "snd (getBranches (const_gateway (Some listing_feature) None count_2_5) example_keys
          example_service)
     = Inr (example_service\<lparr>branches :=
              subject_next
                (Some [with_counts count_2_5_value
                         (parse_record example_keys ''feature%x00origin/feature'')])
                (branches example_service)\<rparr>)"
proof -
  let ?gw = "const_gateway (Some listing_feature) None count_2_5"
  have a: "cmd_getBranches ?gw (getPath example_service) = Inr (Some listing_feature)"
    by (simp add: const_gateway_def)
  have b: "listing_feature \<noteq> []" by (simp add: listing_feature_def)
  have c: "\<forall>b \<in> set (remove_upstream (parse_entries example_keys listing_feature)).
            truthy (get_prop b ''upstream'') \<longrightarrow>
            counts_answer ?gw (getPath example_service) count_2_5_value b"
    by (simp add: counts_answer_def const_gateway_def count_2_5_def)
  show ?thesis
    using getBranches_resolves[OF a b c]
    by (simp add: parse_listing_feature parse_record_feature)
qed

lemma feature_counts:
  "with_counts count_2_5_value (parse_record example_keys ''feature%x00origin/feature'')
     = assign_counts (parse_record example_keys ''feature%x00origin/feature'') 2 5"
  by (simp add: with_counts_def parse_record_feature count_2_5_value_def)

lemma feature_parse:
  "parseBranches example_keys (Some listing_feature)
     = Inr [parse_record example_keys ''feature%x00origin/feature'']"
proof -
  have "listing_feature \<noteq> []" by (simp add: listing_feature_def)
  then show ?thesis by (simp add: parseBranches_nonempty parse_listing_feature)
qed

lemma feature_refs:
  "upstreamBranches [parse_record example_keys ''feature%x00origin/feature''] = [0]"
  by (simp add: upstreamBranches_def parse_record_feature)

lemma feature_text: "truthy_text (Some listing_feature)"
  by (simp add: truthy_text_def listing_feature_def)

text \<open>
  C9 as stated fails. A refresh is started for identity 1 (the listing is requested for its
  path \<open>/repo\<close>); \<open>setId('2')\<close> runs before the listing answers (\<open>parseInt('2')\<close> is 2);
  then the listing and the two counts answer. The refresh resolves and the published
  branches are the collection of identity 1, the one a refresh without the \<open>setId\<close>
  publishes, while the identity is 2.
\<close>

theorem stale_refresh_counterexample:
  "getBranches_start example_service
     = (AwaitBranches, example_service, [GetBranches (Some ''/repo'')]) \<and>
   currentId example_service = Some (Fin 1) \<and>
   fst (run_events example_keys
          [SetId (Fin 2), Reply (Text (Some listing_feature)), Reply (Count 2), Reply (Count 5)]
          (AwaitBranches, example_service)) = Resolved \<and>
   currentId (snd (run_events example_keys
          [SetId (Fin 2), Reply (Text (Some listing_feature)), Reply (Count 2), Reply (Count 5)]
          (AwaitBranches, example_service))) = Some (Fin 2) \<and>
   current (branches (snd (run_events example_keys
          [SetId (Fin 2), Reply (Text (Some listing_feature)), Reply (Count 2), Reply (Count 5)]
          (AwaitBranches, example_service))))
     = Some [with_counts count_2_5_value
               (parse_record example_keys ''feature%x00origin/feature'')] \<and>
   snd (getBranches (const_gateway (Some listing_feature) None count_2_5) example_keys
          example_service)
     = Inr (example_service\<lparr>branches :=
              subject_next
                (Some [with_counts count_2_5_value
                         (parse_record example_keys ''feature%x00origin/feature'')])
                (branches example_service)\<rparr>)"
proof -
  have run: "run_events example_keys
          [SetId (Fin 2), Reply (Text (Some listing_feature)), Reply (Count 2), Reply (Count 5)]
          (AwaitBranches, example_service)
        = (Resolved, (setId (Fin 2) example_service)\<lparr>branches :=
              subject_next
                (Some [assign_counts (parse_record example_keys ''feature%x00origin/feature'') 2 5])
                (branches (setId (Fin 2) example_service))\<rparr>)"
    by (simp add: run_events_Cons run_events_Nil feature_text feature_parse feature_refs)
  have id2: "currentId (setId (Fin 2) example_service) = Some (Fin 2)"
    by (simp add: setId_def Let_def)
  show ?thesis
    by (simp add: run id2 feature_refresh feature_counts subject_next_def
          getBranches_start_def example_path)
       (simp add: example_service_def)
qed

text \<open>
  C9, amended. In every interleaving of a refresh started in a service \<open>s\<close> with calls of
  \<open>setId\<close>, the late result is not discarded: the refresh ends as it does without the
  calls, rejecting with the same error or publishing the same collection, whatever the
  identity has become.
\<close>

theorem stale_refresh_is_published:
  assumes "filter is_reply evs = map Reply (gateway_replies gw keys s)"
  shows "case snd (getBranches gw keys s) of
           Inl e \<Rightarrow>
             fst (run_events keys evs (AwaitBranches, s)) = Rejected e \<and>
             published_alike (snd (run_events keys evs (AwaitBranches, s))) s
         | Inr s' \<Rightarrow>
             fst (run_events keys evs (AwaitBranches, s)) = Resolved \<and>
             published_alike (snd (run_events keys evs (AwaitBranches, s))) s' \<and>
             branches (snd (run_events keys evs (AwaitBranches, s))) = branches s'"
proof -
  note alike = run_events_alike[OF published_alike_refl, of keys evs AwaitBranches s]
  have seq: "run_events keys (filter is_reply evs) (AwaitBranches, s)
           = (case snd (getBranches gw keys s) of
                Inl e \<Rightarrow> (Rejected e, s)
              | Inr s' \<Rightarrow> (Resolved, s'))"
    unfolding assms by (rule run_gateway_replies)
  show ?thesis
    using alike unfolding seq
    by (cases "snd (getBranches gw keys s)") (simp_all add: published_alike_def)
qed

theorem stale_refresh_is_published_witness:
  "fst (run_events example_keys
          [Reply (Text (Some listing_feature)), SetId (Fin 2), Reply (Count 2), Reply (Count 5)]
          (AwaitBranches, example_service)) = Resolved \<and>
   branches (snd (run_events example_keys
          [Reply (Text (Some listing_feature)), SetId (Fin 2), Reply (Count 2), Reply (Count 5)]
          (AwaitBranches, example_service)))
     = subject_next
         (Some [with_counts count_2_5_value
                  (parse_record example_keys ''feature%x00origin/feature'')])
         (branches example_service)"
proof -
  let ?gw = "const_gateway (Some listing_feature) None count_2_5"
  have replies: "gateway_replies ?gw example_keys example_service
      = [Text (Some listing_feature), Count 2, Count 5]"
    by (simp add: gateway_replies_def const_gateway_def feature_text feature_parse feature_refs
          parse_record_feature count_2_5_def count_2_5_value_def Let_def)
  have h: "filter is_reply
             [Reply (Text (Some listing_feature)), SetId (Fin 2), Reply (Count 2), Reply (Count 5)]
           = map Reply (gateway_replies ?gw example_keys example_service)"
    by (simp add: replies)
  show ?thesis
    using stale_refresh_is_published[OF h] by (simp add: feature_refresh)
qed

end
